theory Spec2Isabelle
  imports Complex_Main "HOL-Library.Word"
begin

section \<open>JavaScript values used by the pipeline\<close>

text \<open>
  A JavaScript string is a sequence of 16-bit code units. String literals of the
  source are written with \<open>str\<close>; the two emoji of \<^verbatim>\<open>app.js\<close> (U+274C and U+2705,
  one code unit each) are given by their code unit.
\<close>

type_synonym jschar = "16 word"
type_synonym jsstring = "jschar list"
type_synonym bytes = "8 word list"

definition str :: "string \<Rightarrow> jsstring" where
  "str s = map (\<lambda>c. of_nat (of_char c)) s"

text \<open>
  Conversion of a number to a string, as a template literal does it
  (\<^verbatim>\<open>`${i + 1}`\<close>): the decimal digits, for the non-negative integers below
  \<open>10\<^sup>2\<^sup>1\<close> that page numbers, indices and epoch milliseconds are.
\<close>

definition digit :: "nat \<Rightarrow> jschar" where
  "digit d = of_nat (48 + d)"

fun Number_toString :: "nat \<Rightarrow> jsstring" where
  "Number_toString n =
     (if n < 10 then [digit n] else Number_toString (n div 10) @ [digit (n mod 10)])"

declare Number_toString.simps [simp del]


text \<open>
  A thrown value: the \<^verbatim>\<open>catch\<close> blocks read \<^verbatim>\<open>error.message\<close> and
  \<^verbatim>\<open>error.stack\<close>.
\<close>

datatype js_error = JsError (error_message: jsstring) (error_stack: jsstring)

section \<open>\<^verbatim>\<open>split.js\<close>: splitting and uploading\<close>

text \<open>
  What \<^verbatim>\<open>anthropic.beta.files.upload\<close> resolves to; the code reads \<^verbatim>\<open>id\<close>,
  \<^verbatim>\<open>filename\<close> and \<^verbatim>\<open>created_at\<close>.
\<close>

record upload_response =
  response_id :: jsstring
  response_filename :: jsstring
  response_created_at :: jsstring

text \<open>An element of \<^verbatim>\<open>uploadedFiles\<close>. The record of the unsplit upload has no
  \<^verbatim>\<open>originalFilename\<close> and no \<^verbatim>\<open>uploadedAt\<close>.\<close>

record upload_record =
  fileId :: jsstring
  filename :: jsstring
  originalFilename :: "jsstring option"
  startPage :: nat
  endPage :: nat
  pageCount :: nat
  uploadedAt :: "jsstring option"

text \<open>The argument of the progress callback.\<close>

record progress =
  current :: nat
  total :: nat
  percentage :: nat
  currentFile :: jsstring
  progress_fileId :: jsstring

text \<open>The object a successful run returns, and the two shapes of the result.\<close>

record summary =
  message :: jsstring
  totalPages :: nat
  totalFiles :: nat
  pagesPerFile :: "nat option"
  uploadedFiles :: "upload_record list"

datatype result =
    Success summary
  | Failure (error: jsstring) (details: jsstring)

text \<open>
  The effects of a run, in the order in which they happen: the page indices handed to
  \<^verbatim>\<open>copyPages\<close>, an awaited upload with the number of the call, its bytes, its file
  name and what it settled to, a call of the progress callback, and the console.
\<close>

datatype event =
    CopyPages "nat list"
  | Upload nat bytes jsstring "js_error + upload_response"
  | Progress progress
  | ConsoleLog jsstring
  | ConsoleError jsstring js_error

text \<open>
  The world outside the repository, as parameters: the file system, pdf-lib (a loaded
  document is the list of its pages), \<^verbatim>\<open>path.basename(p, '.pdf')\<close> and the upload
  endpoint, whose answer may depend on how many uploads the run made before.
\<close>

record 'p env =
  fs_readFile :: "jsstring \<Rightarrow> js_error + bytes"
  PDFDocument_load :: "bytes \<Rightarrow> js_error + 'p list"
  copyPages :: "'p list \<Rightarrow> nat list \<Rightarrow> js_error + 'p list"
  save :: "'p list \<Rightarrow> js_error + bytes"
  path_basename :: "jsstring \<Rightarrow> jsstring"
  files_upload :: "nat \<Rightarrow> bytes \<Rightarrow> jsstring \<Rightarrow> js_error + upload_response"

subsection \<open>\<^verbatim>\<open>Math.round(((i + 1) / totalFiles) * 100)\<close>\<close>

text \<open>
  The source computes the percentage in IEEE 754 double precision: the quotient is
  rounded to the nearest double (ties to even), so is the product with 100, and
  \<^verbatim>\<open>Math.round\<close> takes the nearest integer, ties upwards. A positive double is
  a pair \<open>(m, k)\<close> that stands for \<open>m / 2 ^ k\<close> with \<open>2 ^ 52 \<le> m \<le> 2 ^ 53\<close>; the operands
  here are positive and at most 100, so \<open>k\<close> is never negative.
\<close>

fun ties_to_even :: "nat \<Rightarrow> nat \<Rightarrow> nat \<Rightarrow> nat" where
  "ties_to_even q r b =
     (if 2 * r < b then q else if b < 2 * r then q + 1 else if even q then q else q + 1)"

definition round_half_even :: "nat \<Rightarrow> nat \<Rightarrow> nat" where
  "round_half_even a b = ties_to_even (a div b) (a mod b) b"

function binade :: "nat \<Rightarrow> nat \<Rightarrow> nat \<Rightarrow> nat" where
  "binade a b k = (if a = 0 \<or> 2 ^ 52 * b \<le> a * 2 ^ k then k else binade a b (k + 1))"
  by pat_completeness auto
termination
proof (relation "measure (\<lambda>(a, b, k). 2 ^ 52 * b - a * 2 ^ k)", goal_cases)
  case 1
  show ?case by simp
next
  case (2 a b k)
  then have "0 < a * 2 ^ k" and "a * 2 ^ k < 2 ^ 52 * b"
    by simp_all
  then have "2 ^ 52 * b - 2 * (a * 2 ^ k) < 2 ^ 52 * b - a * 2 ^ k"
    by linarith
  then show ?case by simp
qed

declare binade.simps [simp del]

fun with_exponent :: "nat \<Rightarrow> nat \<Rightarrow> nat \<Rightarrow> nat \<times> nat" where
  "with_exponent a b k = (round_half_even (a * 2 ^ k) b, k)"

definition to_double :: "nat \<Rightarrow> nat \<Rightarrow> nat \<times> nat" where
  "to_double a b = with_exponent a b (binade a b 0)"

fun times_100 :: "nat \<times> nat \<Rightarrow> nat \<times> nat" where
  "times_100 (m, k) = to_double (m * 100) (2 ^ k)"

fun Math_round :: "nat \<times> nat \<Rightarrow> nat" where
  "Math_round (m, k) = (2 * m + 2 ^ k) div 2 ^ Suc k"

definition percent :: "nat \<Rightarrow> nat \<Rightarrow> nat" where
  "percent c t = Math_round (times_100 (to_double c t))"

subsection \<open>The loop body and the loop\<close>

definition outputFilename :: "jsstring \<Rightarrow> nat \<Rightarrow> nat \<Rightarrow> nat \<Rightarrow> jsstring" where
  "outputFilename baseFilename i startPg endPg =
     baseFilename @ str ''_part_'' @ Number_toString (i + 1) @ str ''_pages_''
       @ Number_toString (startPg + 1) @ str ''-'' @ Number_toString endPg @ str ''.pdf''"

definition uploaded_log :: "jsstring \<Rightarrow> nat \<Rightarrow> nat \<Rightarrow> jsstring \<Rightarrow> jsstring" where
  "uploaded_log name startPg endPg ident =
     str ''Uploaded: '' @ name @ str '' (Pages '' @ Number_toString (startPg + 1) @ str ''-''
       @ Number_toString endPg @ str '') - ID: '' @ ident"

text \<open>
  One iteration of the \<^verbatim>\<open>for\<close> loop of \<^verbatim>\<open>splitAndUploadPDF\<close> (lines 77 to 138),
  for the loop index \<open>i\<close>: what it pushes on \<^verbatim>\<open>uploadedFiles\<close>, or the value it throws,
  and its effects. \<^verbatim>\<open>onProgress\<close> is \<open>None\<close> when the caller passes no callback; a
  callback returns \<open>Some e\<close> when it throws \<open>e\<close>.
\<close>

definition processUnit ::
  "'p env \<Rightarrow> 'p list \<Rightarrow> jsstring \<Rightarrow> nat \<Rightarrow> nat \<Rightarrow> nat \<Rightarrow> (progress \<Rightarrow> js_error option) option
     \<Rightarrow> nat \<Rightarrow> (js_error + upload_record) \<times> event list" where
  "processUnit env pdfDoc baseFilename nPages perFile nFiles onProgress i =
     (let startPg = i * perFile;
          endPg = min (startPg + perFile) nPages;
          pagesToCopy = [startPg..<endPg]
      in case copyPages env pdfDoc pagesToCopy of
           Inl e \<Rightarrow> (Inl e, [CopyPages pagesToCopy])
         | Inr copiedPages \<Rightarrow>
             (let name = outputFilename baseFilename i startPg endPg
              in case save env copiedPages of
                   Inl e \<Rightarrow> (Inl e, [CopyPages pagesToCopy])
                 | Inr pdfBytes \<Rightarrow>
                     (case files_upload env i pdfBytes name of
                        Inl e \<Rightarrow> (Inl e, [CopyPages pagesToCopy, Upload i pdfBytes name (Inl e)])
                      | Inr uploadResult \<Rightarrow>
                          (let pushed = \<lparr>fileId = response_id uploadResult,
                                 filename = name,
                                 originalFilename = Some (response_filename uploadResult),
                                 startPage = startPg + 1,
                                 endPage = endPg,
                                 pageCount = endPg - startPg,
                                 uploadedAt = Some (response_created_at uploadResult)\<rparr>;
                               info = \<lparr>current = i + 1,
                                 total = nFiles,
                                 percentage = percent (i + 1) nFiles,
                                 currentFile = name,
                                 progress_fileId = response_id uploadResult\<rparr>;
                               done = [CopyPages pagesToCopy,
                                 Upload i pdfBytes name (Inr uploadResult)];
                               logged = ConsoleLog
                                 (uploaded_log name startPg endPg (response_id uploadResult))
                           in case onProgress of
                                None \<Rightarrow> (Inr pushed, done @ [logged])
                              | Some callback \<Rightarrow>
                                  (case callback info of
                                     Some e \<Rightarrow> (Inl e, done @ [Progress info])
                                   | None \<Rightarrow> (Inr pushed, done @ [Progress info, logged]))))))"

function uploadLoop ::
  "'p env \<Rightarrow> 'p list \<Rightarrow> jsstring \<Rightarrow> nat \<Rightarrow> nat \<Rightarrow> nat \<Rightarrow> (progress \<Rightarrow> js_error option) option
     \<Rightarrow> nat \<Rightarrow> upload_record list \<Rightarrow> event list
     \<Rightarrow> (js_error + upload_record list) \<times> event list" where
  "uploadLoop env pdfDoc baseFilename nPages perFile nFiles onProgress i files trace =
     (if i < nFiles
      then (case processUnit env pdfDoc baseFilename nPages perFile nFiles onProgress i of
              (Inl e, evs) \<Rightarrow> (Inl e, trace @ evs)
            | (Inr pushed, evs) \<Rightarrow>
                uploadLoop env pdfDoc baseFilename nPages perFile nFiles onProgress (i + 1)
                  (files @ [pushed]) (trace @ evs))
      else (Inr files, trace))"
  by pat_completeness auto
termination
  by (relation "measure (\<lambda>(env, pdfDoc, baseFilename, nPages, perFile, nFiles, onProgress, i,
        files, trace). nFiles - i)") auto

declare uploadLoop.simps [simp del]

subsection \<open>\<^verbatim>\<open>splitAndUploadPDF\<close>\<close>

text \<open>\<^verbatim>\<open>Math.ceil(totalPages / pagesPerFile)\<close> for a positive \<^verbatim>\<open>pagesPerFile\<close>; the
  double quotient of two integers below \<open>2\<^sup>5\<^sup>3\<close> has the ceiling of the exact one.\<close>

definition Math_ceil_div :: "nat \<Rightarrow> nat \<Rightarrow> nat" where
  "Math_ceil_div t p = (t + p - 1) div p"

text \<open>The \<^verbatim>\<open>catch\<close> block: the error is logged and becomes the result.\<close>

definition caught :: "js_error \<Rightarrow> event list \<Rightarrow> result \<times> event list" where
  "caught e trace =
     (Failure (error_message e) (error_stack e),
      trace @ [ConsoleError (str ''Error splitting and uploading PDF:'') e])"

text \<open>
  \<^verbatim>\<open>splitAndUploadPDF(inputPath, pagesPerFile, onProgress)\<close>: the result the promise
  resolves to and the effects of the run. Page counts are natural numbers. With
  \<^verbatim>\<open>pagesPerFile\<close> 0 and a document that has pages, \<^verbatim>\<open>Math.ceil\<close> gives
  \<^verbatim>\<open>Infinity\<close> and the loop has no last iteration; the model gives \<open>None\<close> there and
  describes no such run.
\<close>

definition splitAndUploadPDF ::
  "'p env \<Rightarrow> jsstring \<Rightarrow> nat \<Rightarrow> (progress \<Rightarrow> js_error option) option
     \<Rightarrow> (result \<times> event list) option" where
  "splitAndUploadPDF env inputPath perFile onProgress =
     (case fs_readFile env inputPath of
        Inl e \<Rightarrow> Some (caught e [])
      | Inr existingPdfBytes \<Rightarrow>
          (case PDFDocument_load env existingPdfBytes of
             Inl e \<Rightarrow> Some (caught e [])
           | Inr pdfDoc \<Rightarrow>
               (let nPages = length pdfDoc
                in if nPages \<le> perFile
                   then (let baseFilename = path_basename env inputPath;
                             name = baseFilename @ str ''.pdf''
                         in case files_upload env 0 existingPdfBytes name of
                              Inl e \<Rightarrow> Some (caught e [Upload 0 existingPdfBytes name (Inl e)])
                            | Inr uploadResult \<Rightarrow>
                                Some (Success \<lparr>message = str
                                    ''PDF uploaded without splitting (fewer pages than split size)'',
                                  totalPages = nPages,
                                  totalFiles = 1,
                                  pagesPerFile = None,
                                  uploadedFiles = [\<lparr>fileId = response_id uploadResult,
                                    filename = response_filename uploadResult,
                                    originalFilename = None,
                                    startPage = 1,
                                    endPage = nPages,
                                    pageCount = nPages,
                                    uploadedAt = None\<rparr>]\<rparr>,
                                  [Upload 0 existingPdfBytes name (Inr uploadResult)]))
                   else if perFile = 0 then None
                   else (let baseFilename = path_basename env inputPath;
                             nFiles = Math_ceil_div nPages perFile
                         in case uploadLoop env pdfDoc baseFilename nPages perFile nFiles
                                   onProgress 0 [] [] of
                              (Inl e, trace) \<Rightarrow> Some (caught e trace)
                            | (Inr files, trace) \<Rightarrow>
                                Some (Success \<lparr>message = str ''Successfully split and uploaded PDF into ''
                                      @ Number_toString nFiles @ str '' files'',
                                    totalPages = nPages,
                                    totalFiles = nFiles,
                                    pagesPerFile = Some perFile,
                                    uploadedFiles = files\<rparr>, trace)))))"

text \<open>What the claims read off a trace.\<close>

fun copied_ranges :: "event list \<Rightarrow> nat list list" where
  "copied_ranges [] = []"
| "copied_ranges (CopyPages idx # evs) = idx # copied_ranges evs"
| "copied_ranges (_ # evs) = copied_ranges evs"

fun is_Upload_or_Progress :: "event \<Rightarrow> bool" where
  "is_Upload_or_Progress (Upload _ _ _ _) = True"
| "is_Upload_or_Progress (Progress _) = True"
| "is_Upload_or_Progress _ = False"

fun progress_calls :: "event list \<Rightarrow> progress list" where
  "progress_calls [] = []"
| "progress_calls (Progress info # evs) = info # progress_calls evs"
| "progress_calls (_ # evs) = progress_calls evs"

fun upload_calls :: "event list \<Rightarrow> (nat \<times> bytes \<times> jsstring) list" where
  "upload_calls [] = []"
| "upload_calls (Upload k bs name _ # evs) = (k, bs, name) # upload_calls evs"
| "upload_calls (_ # evs) = upload_calls evs"

section \<open>\<^verbatim>\<open>app.js\<close>: extraction and consolidation\<close>

text \<open>
  A response of \<^verbatim>\<open>messages.create\<close>, as far as the code reads it: \<^verbatim>\<open>content\<close> may
  be missing, and a content block may have no \<^verbatim>\<open>text\<close>.
\<close>

record content_block =
  block_text :: "jsstring option"

record message_response =
  content :: "content_block list option"

text \<open>\<^verbatim>\<open>response.content?.[0]?.text || ''\<close>\<close>

definition first_text :: "message_response \<Rightarrow> jsstring" where
  "first_text response =
     (case content response of
        None \<Rightarrow> []
      | Some [] \<Rightarrow> []
      | Some (block # _) \<Rightarrow> (case block_text block of None \<Rightarrow> [] | Some t \<Rightarrow> t))"

text \<open>\<^verbatim>\<open>msg.content[0].text\<close>, without optional chaining: a \<^verbatim>\<open>TypeError\<close> when
  there is no first block, \<^verbatim>\<open>undefined\<close> (here \<open>None\<close>) when the block has no text.\<close>

definition content_0_text :: "js_error \<Rightarrow> message_response \<Rightarrow> js_error + jsstring option" where
  "content_0_text typeError msg =
     (case content msg of
        None \<Rightarrow> Inl typeError
      | Some [] \<Rightarrow> Inl typeError
      | Some (block # _) \<Rightarrow> Inr (block_text block))"

text \<open>The effects of \<^verbatim>\<open>processFiles\<close>: the requests it starts, the call of
  \<^verbatim>\<open>fs.writeFileSync\<close> with its path, its data and what it threw (\<open>None\<close> when it
  returned and the file is written), and the console; an argument of \<^verbatim>\<open>console.log\<close>
  that is \<^verbatim>\<open>undefined\<close> is \<open>None\<close>.\<close>

datatype app_event =
    Analyze nat jsstring
  | Merge jsstring
  | WriteFile jsstring jsstring "js_error option"
  | Log "jsstring option list"
  | LogError jsstring js_error

text \<open>
  The world outside \<^verbatim>\<open>app.js\<close>: the analysis request for the \<open>k\<close>-th file, the order
  in which the concurrent requests settle, the merge request, \<^verbatim>\<open>JSON\<close>,
  \<^verbatim>\<open>Date.now()\<close>, \<^verbatim>\<open>fs.writeFileSync\<close> (\<open>Some e\<close> when it throws) and the
  \<^verbatim>\<open>TypeError\<close> of the engine.
\<close>

record 'j app_env =
  analyze :: "nat \<Rightarrow> jsstring \<Rightarrow> js_error + message_response"
  settle_order :: "nat list"
  merge :: "jsstring \<Rightarrow> js_error + message_response"
  JSON_parse :: "jsstring \<Rightarrow> js_error + 'j"
  JSON_stringify :: "'j \<Rightarrow> jsstring"
  Date_now :: nat
  fs_writeFileSync :: "jsstring \<Rightarrow> jsstring \<Rightarrow> js_error option"
  TypeError :: js_error

text \<open>The constant \<^verbatim>\<open>results\<close>: file name and identifier of the four uploads.\<close>

definition results :: "(jsstring \<times> jsstring) list" where
  "results =
     [(str ''fifty.pdf'', str ''file_011CUCchhG7PkDfiyvS1CspP''),
      (str ''hundred.pdf'', str ''file_011CUCchZJeAzfiWdnZrNQKr''),
      (str ''oneFifty.pdf'', str ''file_011CUCchXcgkj9RXa956vDst''),
      (str ''end.pdf'', str ''file_011CUCchWirpGeA1FCSMYDE9'')]"

text \<open>
  \<^verbatim>\<open>Promise.all\<close>: it rejects with the reason of the input promise that rejects
  first in time, and otherwise fulfils with the values in input order. \<open>order\<close> lists
  the promises as they settle; a promise it leaves out settles after those it lists.
\<close>

definition Promise_all :: "nat list \<Rightarrow> (js_error + 'a) list \<Rightarrow> js_error + 'a list" where
  "Promise_all order outcomes =
     (case find (\<lambda>k. k < length outcomes \<and> isl (outcomes ! k)) (order @ [0..<length outcomes]) of
        Some k \<Rightarrow> Inl (projl (outcomes ! k))
      | None \<Rightarrow> Inr (map projr outcomes))"

text \<open>\<^verbatim>\<open>Array.prototype.join\<close> on strings.\<close>

fun join :: "jsstring \<Rightarrow> jsstring list \<Rightarrow> jsstring" where
  "join sep [] = []"
| "join sep [x] = x"
| "join sep (x # y # ys) = x @ sep @ join sep (y # ys)"

text \<open>\<^verbatim>\<open>s.replace(/pat/g, '')\<close> for a pattern of literal characters: the matches are
  found from left to right and do not overlap.\<close>

function replaceAll :: "jsstring \<Rightarrow> jsstring \<Rightarrow> jsstring" where
  "replaceAll pat s =
     (if pat = [] \<or> s = [] then s
      else if take (length pat) s = pat then replaceAll pat (drop (length pat) s)
      else hd s # replaceAll pat (tl s))"
  by pat_completeness auto
termination
  by (relation "measure (\<lambda>(pat, s). length s)") auto

declare replaceAll.simps [simp del]

text \<open>\<^verbatim>\<open>String.prototype.trim\<close>: the code units of \<^verbatim>\<open>WhiteSpace\<close> and
  \<^verbatim>\<open>LineTerminator\<close> are removed at both ends.\<close>

definition isWhiteSpace :: "jschar \<Rightarrow> bool" where
  "isWhiteSpace c \<longleftrightarrow>
     c \<in> {0x9, 0xA, 0xB, 0xC, 0xD, 0x20, 0xA0, 0x1680, 0x2028, 0x2029, 0x202F, 0x205F, 0x3000, 0xFEFF}
     \<or> (0x2000 \<le> c \<and> c \<le> 0x200A)"

definition trim :: "jsstring \<Rightarrow> jsstring" where
  "trim s = rev (dropWhile isWhiteSpace (rev (dropWhile isWhiteSpace s)))"

text \<open>The clean-up of lines 139 to 142.\<close>

definition cleaned :: "jsstring \<Rightarrow> jsstring" where
  "cleaned raw = trim (replaceAll (str ''```'') (replaceAll (str ''```json'') raw))"

definition uploading_failed :: jsstring where
  "uploading_failed = 0x274C # str '' Error uploading one or more files:''"

definition invalid_json :: jsstring where
  "invalid_json = 0x274C # str '' Invalid JSON or file write error:''"

definition raw_text_response :: jsstring where
  "raw_text_response = str ''Raw text response:'' @ [0xA]"

definition output_path :: "nat \<Rightarrow> jsstring" where
  "output_path now = str ''output_'' @ Number_toString now @ str ''.json''"

definition json_saved :: "jsstring \<Rightarrow> jsstring" where
  "json_saved filePath = 0x2705 # str '' JSON saved to '' @ filePath"

text \<open>
  Lines 137 to 153, the inner \<^verbatim>\<open>try\<close> and its \<^verbatim>\<open>catch\<close>: the events, and
  the error that leaves the \<^verbatim>\<open>catch\<close> block when reading the raw text throws again.
\<close>

definition consolidate :: "'j app_env \<Rightarrow> message_response \<Rightarrow> app_event list \<times> js_error option" where
  "consolidate env msg =
     (case content_0_text (TypeError env) msg of
        Inl e \<Rightarrow> ([LogError invalid_json e], Some e)
      | Inr None \<Rightarrow>
          ([LogError invalid_json (TypeError env), Log [Some raw_text_response, None]], None)
      | Inr (Some raw) \<Rightarrow>
          (case JSON_parse env (cleaned raw) of
             Inl e \<Rightarrow> ([LogError invalid_json e, Log [Some raw_text_response, Some raw]], None)
           | Inr jsonData \<Rightarrow>
               (let filePath = output_path (Date_now env);
                    data = JSON_stringify env jsonData
                in case fs_writeFileSync env filePath data of
                     Some e \<Rightarrow>
                       ([WriteFile filePath data (Some e), LogError invalid_json e,
                         Log [Some raw_text_response, Some raw]],
                        None)
                   | None \<Rightarrow>
                       ([WriteFile filePath data None, Log [Some (json_saved filePath)]], None))))"

text \<open>
  \<^verbatim>\<open>processFiles\<close>, for a list of files in place of the constant: all analysis
  requests are started, \<^verbatim>\<open>Promise.all\<close> is awaited, the payloads are joined and
  merged, and the answer is consolidated. The function returns nothing; the model
  gives its effects.
\<close>

definition processFilesOf :: "(jsstring \<times> jsstring) list \<Rightarrow> 'j app_env \<Rightarrow> app_event list" where
  "processFilesOf files env =
     (let started = map (\<lambda>(k, file). Analyze k (snd file)) (enumerate 0 files);
          outcomes = map (\<lambda>(k, file). map_sum id first_text (analyze env k (snd file)))
                       (enumerate 0 files)
      in case Promise_all (settle_order env) outcomes of
           Inl err \<Rightarrow> started @ [LogError uploading_failed err]
         | Inr responses \<Rightarrow>
             (let combinedResults = join [0xA] responses
              in case merge env combinedResults of
                   Inl err \<Rightarrow> started @ [Merge combinedResults, LogError uploading_failed err]
                 | Inr msg \<Rightarrow>
                     (case consolidate env msg of
                        (evs, Some err) \<Rightarrow>
                          started @ [Merge combinedResults] @ evs @ [LogError uploading_failed err]
                      | (evs, None) \<Rightarrow> started @ [Merge combinedResults] @ evs)))"

definition processFiles :: "'j app_env \<Rightarrow> app_event list" where
  "processFiles env = processFilesOf results env"

text \<open>What the claims read off a trace of \<^verbatim>\<open>processFiles\<close>.\<close>

fun merge_calls :: "app_event list \<Rightarrow> jsstring list" where
  "merge_calls [] = []"
| "merge_calls (Merge user # evs) = user # merge_calls evs"
| "merge_calls (_ # evs) = merge_calls evs"

fun write_calls :: "app_event list \<Rightarrow> (jsstring \<times> jsstring) list" where
  "write_calls [] = []"
| "write_calls (WriteFile filePath data _ # evs) = (filePath, data) # write_calls evs"
| "write_calls (_ # evs) = write_calls evs"

text \<open>The files on disk after the run: the calls of \<^verbatim>\<open>fs.writeFileSync\<close> that returned.\<close>

fun written_files :: "app_event list \<Rightarrow> (jsstring \<times> jsstring) list" where
  "written_files [] = []"
| "written_files (WriteFile filePath data None # evs) = (filePath, data) # written_files evs"
| "written_files (_ # evs) = written_files evs"

text \<open>The wrapping that claim C8 speaks of: the text between \<^verbatim>\<open>```json\<close> and
  \<^verbatim>\<open>```\<close>, each on a line of its own.\<close>

definition fenced :: "jsstring \<Rightarrow> jsstring" where
  "fenced t = str ''```json'' @ [0xA] @ t @ [0xA] @ str ''```''"

text \<open>The same with any text between the fence and the answer.\<close>

definition fence_around :: "jsstring \<Rightarrow> jsstring \<Rightarrow> jsstring \<Rightarrow> jsstring" where
  "fence_around before after t = str ''```json'' @ before @ t @ after @ str ''```''"

section \<open>Concrete runs\<close>

text \<open>A document of \<open>nPages\<close> pages named \<^verbatim>\<open>doc.pdf\<close>, and an upload endpoint that
  rejects the call with the given number, if any.\<close>

definition demo_error :: js_error where
  "demo_error = JsError (str ''upload failed'') (str ''at files.upload'')"

definition demo_bytes :: bytes where
  "demo_bytes = [0x25, 0x50, 0x44, 0x46]"

definition demo_path :: jsstring where
  "demo_path = str ''in/doc.pdf''"

definition demo_env :: "nat \<Rightarrow> nat option \<Rightarrow> nat env" where
  "demo_env nPages failing =
     \<lparr>fs_readFile = (\<lambda>p. Inr demo_bytes),
      PDFDocument_load = (\<lambda>bs. Inr [0..<nPages]),
      copyPages = (\<lambda>doc idx. Inr (map (\<lambda>i. doc ! i) idx)),
      save = (\<lambda>pages. Inr [of_nat (length pages)]),
      path_basename = (\<lambda>p. str ''doc''),
      files_upload = (\<lambda>k bs name.
        if failing = Some k then Inl demo_error
        else Inr \<lparr>response_id = str ''file_'' @ [digit k],
               response_filename = name,
               response_created_at = str ''2025''\<rparr>)\<rparr>"

text \<open>A progress callback that returns normally.\<close>

definition demo_callback :: "progress \<Rightarrow> js_error option" where
  "demo_callback info = None"

text \<open>
  For \<^verbatim>\<open>app.js\<close>: four analysis answers of which three carry no text, an analysis
  request that rejects when its number is the given one, a merge request that answers with
  the given text, and a parser that accepts \<^verbatim>\<open>{}\<close> only.
\<close>

definition demo_message :: "jsstring \<Rightarrow> message_response" where
  "demo_message t = \<lparr>content = Some [\<lparr>block_text = Some t\<rparr>]\<rparr>"

definition demo_syntax_error :: js_error where
  "demo_syntax_error = JsError (str ''Unexpected token'') (str ''at JSON.parse'')"

definition demo_app_env :: "nat option \<Rightarrow> jsstring \<Rightarrow> jsstring app_env" where
  "demo_app_env failing answer =
     \<lparr>analyze = (\<lambda>k ident.
        if failing = Some k then Inl demo_error
        else if k = 0 then Inr \<lparr>content = None\<rparr>
        else if k = 1 then Inr \<lparr>content = Some []\<rparr>
        else if k = 2 then Inr \<lparr>content = Some [\<lparr>block_text = None\<rparr>]\<rparr>
        else Inr (demo_message (str ''[]''))),
      settle_order = [3, 2, 1, 0],
      merge = (\<lambda>user. Inr (demo_message answer)),
      JSON_parse = (\<lambda>s. if s = str ''{}'' then Inr s else Inl demo_syntax_error),
      JSON_stringify = (\<lambda>jsonData. jsonData),
      Date_now = 1730000000000,
      fs_writeFileSync = (\<lambda>filePath data. None),
      TypeError = JsError (str ''Cannot read properties of undefined'') (str ''at processFiles'')\<rparr>"

text \<open>
  Two analysis requests reject, with different reasons: the one for the third file first in
  time, the one for the second file after it.
\<close>

definition demo_racing_env :: "jsstring app_env" where
  "demo_racing_env =
     (demo_app_env None [])
       \<lparr>analyze := (\<lambda>k ident.
          if k = 1 then Inl (JsError (str ''second file'') (str ''settled last''))
          else if k = 2 then Inl (JsError (str ''third file'') (str ''settled first''))
          else Inr (demo_message (str ''[]''))),
        settle_order := [3, 2, 1, 0]\<rparr>"




definition demo_responses :: "message_response list" where
  "demo_responses =
     [\<lparr>content = None\<rparr>, \<lparr>content = Some []\<rparr>, \<lparr>content = Some [\<lparr>block_text = None\<rparr>]\<rparr>,
      demo_message (str ''[]'')]"

section \<open>Evaluation and auxiliary facts\<close>

lemmas percent_eval = percent_def to_double_def round_half_even_def binade.simps



lemma Number_toString_digits: "set (Number_toString n) \<subseteq> digit ` {0..<10}"
proof (induction n rule: Number_toString.induct)
  case (1 n)
  show ?case
  proof (cases "n < 10")
    case True
    then show ?thesis
      by (subst Number_toString.simps) simp
  next
    case False
    with "1.IH" have "set (Number_toString (n div 10)) \<subseteq> digit ` {0..<10}"
      by simp
    with False show ?thesis
      by (subst Number_toString.simps) simp
  qed
qed

text \<open>With a positive threshold the model describes the run: the function returns.\<close>

lemma splitAndUploadPDF_returns:
  "0 < P \<Longrightarrow> \<exists>res trace. splitAndUploadPDF env inputPath P onProgress = Some (res, trace)"
  by (auto simp: splitAndUploadPDF_def Let_def caught_def split: sum.splits prod.splits)

text \<open>The percentage is the one of double arithmetic: \<open>23 / 40\<close> is rounded below \<open>0.575\<close>,
  and the report says 57 where the exact quotient would give 58.\<close>

lemma percent_double_rounding: "percent 23 40 = 57" "(200 * 23 + 40) div (2 * 40) = (58::nat)"
  by (simp_all add: percent_eval)

subsection \<open>The number of files and the page ranges\<close>

lemma ceil_div_upper: "0 < p \<Longrightarrow> t \<le> Math_ceil_div t p * p"
proof -
  assume p: "0 < p"
  have "t + p - 1 = (t + p - 1) div p * p + (t + p - 1) mod p" by simp
  moreover have "(t + p - 1) mod p < p" using p by simp
  ultimately have "t + p - 1 < (t + p - 1) div p * p + p" by linarith
  then show ?thesis using p unfolding Math_ceil_div_def by linarith
qed

lemma ceil_div_lower: "0 < p \<Longrightarrow> i < Math_ceil_div t p \<Longrightarrow> i * p < t"
proof -
  assume p: "0 < p" and i: "i < Math_ceil_div t p"
  then have "Suc i \<le> (t + p - 1) div p" by (simp add: Math_ceil_div_def)
  then have "Suc i * p \<le> (t + p - 1) div p * p" by (rule mult_le_mono1)
  also have "\<dots> \<le> t + p - 1" by simp
  finally show ?thesis using p by simp
qed

lemma ceil_div_real: "0 < p \<Longrightarrow> int (Math_ceil_div t p) = \<lceil>real t / real p\<rceil>"
proof -
  assume p: "0 < p"
  let ?n = "Math_ceil_div t p"
  have up: "real t \<le> real ?n * real p"
    using ceil_div_upper[OF p, of t] by (metis of_nat_le_iff of_nat_mult)
  have lo: "(real ?n - 1) * real p < real t"
  proof (cases "?n = 0")
    case True
    then show ?thesis using p
      by (simp add: Math_ceil_div_def)
  next
    case False
    then have "?n - 1 < ?n" by simp
    from ceil_div_lower[OF p this] have "real ((?n - 1) * p) < real t" by (simp only: of_nat_less_iff)
    then show ?thesis using False by (simp add: of_nat_diff)
  qed
  have "\<lceil>real t / real p\<rceil> = int ?n"
  proof (rule ceiling_unique)
    show "of_int (int ?n) - 1 < real t / real p"
      using lo p by (simp add: pos_less_divide_eq)
    show "real t / real p \<le> of_int (int ?n)"
      using up p by (simp add: pos_divide_le_eq)
  qed
  then show ?thesis by simp
qed

lemma concat_ranges:
  "concat (map (\<lambda>i. [i * p..<min (i * p + p) t]) [0..<m]) = [0..<min (m * p) t]"
proof (induction m)
  case 0
  show ?case by simp
next
  case (Suc m)
  show ?case
  proof (cases "m * p \<le> t")
    case True
    then have "[0..<min (m * p) t] @ [m * p..<min (m * p + p) t] = [0..<min (m * p + p) t]"
      using upt_add_eq_append[of 0 "m * p" "min (m * p + p) t - m * p"] by simp
    with Suc show ?thesis by (simp add: add.commute)
  next
    case False
    with Suc show ?thesis by (simp add: min_def)
  qed
qed

subsection \<open>The loop\<close>

lemma processUnit_Inr:
  assumes "processUnit env pdfDoc base T P n cb i = (Inr r, evs)"
  obtains copied bs resp where
    "copyPages env pdfDoc [i * P..<min (i * P + P) T] = Inr copied"
    "save env copied = Inr bs"
    "files_upload env i bs (outputFilename base i (i * P) (min (i * P + P) T)) = Inr resp"
    "r = \<lparr>fileId = response_id resp,
          filename = outputFilename base i (i * P) (min (i * P + P) T),
          originalFilename = Some (response_filename resp),
          startPage = i * P + 1, endPage = min (i * P + P) T,
          pageCount = min (i * P + P) T - i * P,
          uploadedAt = Some (response_created_at resp)\<rparr>"
    "evs = CopyPages [i * P..<min (i * P + P) T]
         # Upload i bs (outputFilename base i (i * P) (min (i * P + P) T)) (Inr resp)
         # (case cb of None \<Rightarrow> [] | Some f \<Rightarrow>
              [Progress \<lparr>current = i + 1, total = n, percentage = percent (i + 1) n,
                 currentFile = outputFilename base i (i * P) (min (i * P + P) T),
                 progress_fileId = response_id resp\<rparr>])
         @ [ConsoleLog (uploaded_log (outputFilename base i (i * P) (min (i * P + P) T)) (i * P)
              (min (i * P + P) T) (response_id resp))]"
  using assms unfolding processUnit_def Let_def
  by (auto split: sum.splits option.splits)

lemma uploadLoop_Inr:
  assumes "uploadLoop env pdfDoc base T P n cb i files tr = (Inr fs, t)"
  shows "(\<forall>k. i \<le> k \<and> k < n \<longrightarrow> isl (fst (processUnit env pdfDoc base T P n cb k)) = False)
       \<and> fs = files @ map (\<lambda>k. projr (fst (processUnit env pdfDoc base T P n cb k))) [i..<n]
       \<and> t = tr @ concat (map (\<lambda>k. snd (processUnit env pdfDoc base T P n cb k)) [i..<n])"
  using assms
proof (induction env pdfDoc base T P n cb i files tr rule: uploadLoop.induct)
  case (1 env pdfDoc base T P n cb i files tr)
  show ?case
  proof (cases "i < n")
    case False
    with "1.prems" show ?thesis by (auto simp: uploadLoop.simps)
  next
    case True
    obtain out evs where pu: "processUnit env pdfDoc base T P n cb i = (out, evs)"
      by (cases "processUnit env pdfDoc base T P n cb i")
    show ?thesis
    proof (cases out)
      case (Inl e)
      with True pu "1.prems" show ?thesis by (simp add: uploadLoop.simps)
    next
      case (Inr r)
      with True pu "1.prems"
      have "uploadLoop env pdfDoc base T P n cb (i + 1) (files @ [r]) (tr @ evs) = (Inr fs, t)"
        by (simp add: uploadLoop.simps)
      from "1.IH"[OF True pu[symmetric] Inr this]
      have ih: "\<forall>k. i + 1 \<le> k \<and> k < n \<longrightarrow> isl (fst (processUnit env pdfDoc base T P n cb k)) = False"
        "fs = (files @ [r]) @ map (\<lambda>k. projr (fst (processUnit env pdfDoc base T P n cb k))) [i + 1..<n]"
        "t = (tr @ evs) @ concat (map (\<lambda>k. snd (processUnit env pdfDoc base T P n cb k)) [i + 1..<n])"
        by blast+
      have "isl (fst (processUnit env pdfDoc base T P n cb k)) = False" if "i \<le> k \<and> k < n" for k
      proof (cases "k = i")
        case True
        with pu Inr show ?thesis by simp
      next
        case False
        with that have "i + 1 \<le> k \<and> k < n" by simp
        with ih(1) show ?thesis by blast
      qed
      moreover have "[i..<n] = i # [i + 1..<n]"
        using True by (simp add: upt_conv_Cons)
      ultimately show ?thesis using ih(2,3) pu Inr
        by simp
    qed
  qed
qed
lemma uploadLoop_Inl:
  assumes "uploadLoop env pdfDoc base T P n cb i files tr = (Inl e, t)"
  shows "\<exists>m. i \<le> m \<and> m < n
       \<and> (\<forall>k. i \<le> k \<and> k < m \<longrightarrow> isl (fst (processUnit env pdfDoc base T P n cb k)) = False)
       \<and> fst (processUnit env pdfDoc base T P n cb m) = Inl e
       \<and> t = tr @ concat (map (\<lambda>k. snd (processUnit env pdfDoc base T P n cb k)) [i..<m])
             @ snd (processUnit env pdfDoc base T P n cb m)"
  using assms
proof (induction env pdfDoc base T P n cb i files tr rule: uploadLoop.induct)
  case (1 env pdfDoc base T P n cb i files tr)
  show ?case
  proof (cases "i < n")
    case False
    with "1.prems" show ?thesis by (auto simp: uploadLoop.simps)
  next
    case True
    obtain out evs where pu: "processUnit env pdfDoc base T P n cb i = (out, evs)"
      by (cases "processUnit env pdfDoc base T P n cb i")
    show ?thesis
    proof (cases out)
      case (Inl e')
      with True pu "1.prems" have "e' = e" "t = tr @ evs" by (simp_all add: uploadLoop.simps)
      with True pu Inl show ?thesis by (intro exI[of _ i]) auto
    next
      case (Inr r)
      with True pu "1.prems"
      have "uploadLoop env pdfDoc base T P n cb (i + 1) (files @ [r]) (tr @ evs) = (Inl e, t)"
        by (simp add: uploadLoop.simps)
      from "1.IH"[OF True pu[symmetric] Inr this] obtain m where m:
        "i + 1 \<le> m" "m < n"
        "\<forall>k. i + 1 \<le> k \<and> k < m \<longrightarrow> isl (fst (processUnit env pdfDoc base T P n cb k)) = False"
        "fst (processUnit env pdfDoc base T P n cb m) = Inl e"
        "t = (tr @ evs) @ concat (map (\<lambda>k. snd (processUnit env pdfDoc base T P n cb k)) [i + 1..<m])
             @ snd (processUnit env pdfDoc base T P n cb m)"
        by blast
      have "isl (fst (processUnit env pdfDoc base T P n cb k)) = False" if "i \<le> k \<and> k < m" for k
      proof (cases "k = i")
        case True
        with pu Inr show ?thesis by simp
      next
        case False
        with that have "i + 1 \<le> k \<and> k < m" by simp
        with m(3) show ?thesis by blast
      qed
      moreover have "[i..<m] = i # [i + 1..<m]"
        using m(1) by (simp add: upt_conv_Cons)
      ultimately show ?thesis using m pu
        by (intro exI[of _ m]) simp
    qed
  qed
qed

lemma copied_ranges_append: "copied_ranges (xs @ ys) = copied_ranges xs @ copied_ranges ys"
  by (induction xs rule: copied_ranges.induct) simp_all

lemma copied_ranges_concat: "copied_ranges (concat xss) = concat (map copied_ranges xss)"
  by (induction xss) (simp_all add: copied_ranges_append)

lemma processUnit_copied:
  "copied_ranges (snd (processUnit env pdfDoc base T P n cb i)) = [[i * P..<min (i * P + P) T]]"
  unfolding processUnit_def Let_def
  by (auto split: sum.splits option.splits)

text \<open>A run that splits and succeeds: every iteration succeeded, and the result and the
  trace are those of the iterations.\<close>

lemma split_run_Success:
  assumes run: "splitAndUploadPDF env inputPath P cb = Some (Success s, trace)"
    and rd: "fs_readFile env inputPath = Inr bs"
    and ld: "PDFDocument_load env bs = Inr pdfDoc"
    and big: "P < length pdfDoc"
  shows "0 < P"
    and "\<forall>k<Math_ceil_div (length pdfDoc) P.
           isl (fst (processUnit env pdfDoc (path_basename env inputPath) (length pdfDoc) P
             (Math_ceil_div (length pdfDoc) P) cb k)) = False"
    and "uploadedFiles s = map (\<lambda>k. projr (fst (processUnit env pdfDoc (path_basename env inputPath)
             (length pdfDoc) P (Math_ceil_div (length pdfDoc) P) cb k)))
           [0..<Math_ceil_div (length pdfDoc) P]"
    and "trace = concat (map (\<lambda>k. snd (processUnit env pdfDoc (path_basename env inputPath)
             (length pdfDoc) P (Math_ceil_div (length pdfDoc) P) cb k))
           [0..<Math_ceil_div (length pdfDoc) P])"
    and "totalFiles s = Math_ceil_div (length pdfDoc) P"
    and "totalPages s = length pdfDoc"
    and "pagesPerFile s = Some P"
proof -
  let ?n = "Math_ceil_div (length pdfDoc) P"
  let ?base = "path_basename env inputPath"
  show p: "0 < P"
    using run rd ld big by (cases "P = 0") (simp_all add: splitAndUploadPDF_def)
  obtain out t where loop: "uploadLoop env pdfDoc ?base (length pdfDoc) P ?n cb 0 [] [] = (out, t)"
    by (cases "uploadLoop env pdfDoc ?base (length pdfDoc) P ?n cb 0 [] []")
  from run rd ld big p loop obtain fs where out: "out = Inr fs"
    and s: "s = \<lparr>message = str ''Successfully split and uploaded PDF into ''
                 @ Number_toString ?n @ str '' files'',
               totalPages = length pdfDoc, totalFiles = ?n, pagesPerFile = Some P,
               uploadedFiles = fs\<rparr>"
    and t: "t = trace"
    by (cases out) (auto simp: splitAndUploadPDF_def Let_def caught_def)
  from uploadLoop_Inr[OF loop[unfolded out]] s t
  show "\<forall>k<?n. isl (fst (processUnit env pdfDoc ?base (length pdfDoc) P ?n cb k)) = False"
    and "uploadedFiles s = map (\<lambda>k. projr (fst (processUnit env pdfDoc ?base
             (length pdfDoc) P ?n cb k))) [0..<?n]"
    and "trace = concat (map (\<lambda>k. snd (processUnit env pdfDoc ?base
             (length pdfDoc) P ?n cb k)) [0..<?n])"
    by simp_all
  from s show "totalFiles s = ?n" "totalPages s = length pdfDoc" "pagesPerFile s = Some P"
    by simp_all
qed


lemma unit_record_fields:
  assumes "isl (fst (processUnit env pdfDoc base T P n cb k)) = False"
  shows "startPage (projr (fst (processUnit env pdfDoc base T P n cb k))) = k * P + 1"
    and "endPage (projr (fst (processUnit env pdfDoc base T P n cb k))) = min (k * P + P) T"
    and "pageCount (projr (fst (processUnit env pdfDoc base T P n cb k))) = min (k * P + P) T - k * P"
    and "filename (projr (fst (processUnit env pdfDoc base T P n cb k)))
           = outputFilename base k (k * P) (min (k * P + P) T)"
proof -
  obtain out evs where pu: "processUnit env pdfDoc base T P n cb k = (out, evs)"
    by (cases "processUnit env pdfDoc base T P n cb k")
  with assms obtain r where out: "out = Inr r"
    by (cases out) simp_all
  from pu out have "processUnit env pdfDoc base T P n cb k = (Inr r, evs)"
    by simp
  then have "startPage r = k * P + 1 \<and> endPage r = min (k * P + P) T
      \<and> pageCount r = min (k * P + P) T - k * P
      \<and> filename r = outputFilename base k (k * P) (min (k * P + P) T)"
    by (rule processUnit_Inr) simp
  with pu out
  show "startPage (projr (fst (processUnit env pdfDoc base T P n cb k))) = k * P + 1"
    and "endPage (projr (fst (processUnit env pdfDoc base T P n cb k))) = min (k * P + P) T"
    and "pageCount (projr (fst (processUnit env pdfDoc base T P n cb k))) = min (k * P + P) T - k * P"
    and "filename (projr (fst (processUnit env pdfDoc base T P n cb k)))
           = outputFilename base k (k * P) (min (k * P + P) T)"
    by simp_all
qed

subsection \<open>The page ranges of a split\<close>

text \<open>
  Claim C1. When a document of \<open>T\<close> pages is split with threshold \<open>P\<close>, \<open>1 \<le> P < T\<close>, the
  run makes exactly \<open>\<lceil>T / P\<rceil>\<close> page ranges; range \<open>i\<close> is \<open>[i * P, min ((i + 1) * P) T)\<close>, the
  page indices copied for it and the record pushed for it agree with it, the ranges in order
  concatenate to \<open>[0, T)\<close> (contiguous, no gap, no overlap, nothing out of bounds), their
  lengths sum to \<open>T\<close>, every range but the last has length \<open>P\<close> and the last has at least
  one page.
\<close>

theorem split_ranges_partition:
  assumes run: "splitAndUploadPDF env inputPath P cb = Some (Success s, trace)"
    and rd: "fs_readFile env inputPath = Inr bs"
    and ld: "PDFDocument_load env bs = Inr pdfDoc"
    and big: "P < length pdfDoc"
    and pos: "1 \<le> P"
  shows "int (length (uploadedFiles s)) = \<lceil>real (length pdfDoc) / real P\<rceil>
    \<and> totalFiles s = length (uploadedFiles s)
    \<and> copied_ranges trace
        = map (\<lambda>i. [i * P..<min ((i + 1) * P) (length pdfDoc)]) [0..<length (uploadedFiles s)]
    \<and> (\<forall>i<length (uploadedFiles s).
          startPage (uploadedFiles s ! i) = i * P + 1
        \<and> endPage (uploadedFiles s ! i) = min ((i + 1) * P) (length pdfDoc)
        \<and> pageCount (uploadedFiles s ! i) = length (copied_ranges trace ! i))
    \<and> concat (copied_ranges trace) = [0..<length pdfDoc]
    \<and> sum_list (map length (copied_ranges trace)) = length pdfDoc
    \<and> sum_list (map pageCount (uploadedFiles s)) = length pdfDoc
    \<and> (\<forall>i. i + 1 < length (uploadedFiles s) \<longrightarrow> pageCount (uploadedFiles s ! i) = P)
    \<and> 1 \<le> pageCount (last (uploadedFiles s))"
proof -
  let ?T = "length pdfDoc"
  let ?n = "Math_ceil_div ?T P"
  let ?pu = "processUnit env pdfDoc (path_basename env inputPath) ?T P ?n cb"
  let ?fs = "uploadedFiles s"
  note ok = split_run_Success[OF run rd ld big]
  have p: "0 < P" by (rule ok(1))
  have len: "length ?fs = ?n"
    using ok(3) by simp
  have nth: "?fs ! i = projr (fst (?pu i))" if "i < ?n" for i
    using ok(3) that by simp
  have bound: "i * P < ?T" if "i < ?n" for i
    using ceil_div_lower[OF p that] .
  have suc: "(i + 1) * P = i * P + P" for i
    by simp
  have ranges: "copied_ranges trace = map (\<lambda>i. [i * P..<min ((i + 1) * P) ?T]) [0..<?n]"
    unfolding ok(4) copied_ranges_concat suc
    by (simp add: processUnit_copied comp_def concat_map_singleton del: mult_Suc)
  have fields: "startPage (?fs ! i) = i * P + 1 \<and> endPage (?fs ! i) = min ((i + 1) * P) ?T
      \<and> pageCount (?fs ! i) = min ((i + 1) * P) ?T - i * P" if "i < ?n" for i
    unfolding nth[OF that] suc
    using unit_record_fields(1-3)[of env pdfDoc "path_basename env inputPath" ?T P ?n cb i] ok(2) that
    by blast
  have count: "pageCount (?fs ! i) = length (copied_ranges trace ! i)" if "i < ?n" for i
    using fields[OF that] that unfolding ranges by simp
  have whole: "concat (copied_ranges trace) = [0..<?T]"
    unfolding ranges suc concat_ranges using ceil_div_upper[OF p, of ?T] by simp
  have total: "sum_list (map length (copied_ranges trace)) = ?T"
    using whole by (metis length_concat length_upt minus_nat.diff_0)
  have counts: "map pageCount ?fs = map length (copied_ranges trace)"
    by (rule nth_equalityI) (simp_all add: len ranges count[unfolded ranges])
  have full: "pageCount (?fs ! i) = P" if "i + 1 < ?n" for i
  proof -
    from that have "i < ?n" by simp
    moreover from bound[OF that] have "min ((i + 1) * P) ?T = (i + 1) * P" by simp
    ultimately show ?thesis using fields[of i] by simp
  qed
  have n_pos: "0 < ?n"
    using big ceil_div_upper[OF p, of ?T] by (cases "?n = 0") simp_all
  have rest: "1 \<le> pageCount (last ?fs)"
  proof -
    have "?fs \<noteq> []" using len n_pos by auto
    then have "last ?fs = ?fs ! (?n - 1)" by (simp add: last_conv_nth len)
    moreover have less: "?n - 1 < ?n" using n_pos by simp
    moreover have "?n - 1 + 1 = ?n" using n_pos by simp
    moreover have "min (?n * P) ?T = ?T"
      using ceil_div_upper[OF p, of ?T] by simp
    moreover note bound[OF less]
    ultimately show ?thesis using fields[OF less] by simp
  qed
  show ?thesis
    using len ceil_div_real[OF p, of ?T] ok(5) ranges fields count whole total counts full rest
    by simp
qed


lemma map_by_index: "map g xs = map (\<lambda>i. g (xs ! i)) [0..<length xs]"
  by (rule nth_equalityI) simp_all

lemmas demo_eval = demo_env_def demo_path_def demo_bytes_def demo_error_def
  splitAndUploadPDF_def Math_ceil_div_def uploadLoop.simps processUnit_def caught_def Let_def

lemma demo_5_2: "\<exists>s trace. splitAndUploadPDF (demo_env 5 None) demo_path 2 None = Some (Success s, trace)"
  by (simp add: demo_eval)

theorem split_ranges_partition_witness:
  "\<exists>s trace. splitAndUploadPDF (demo_env 5 None) demo_path 2 None = Some (Success s, trace)
     \<and> length (uploadedFiles s) = 3
     \<and> copied_ranges trace = [[0, 1], [2, 3], [4]]
     \<and> map startPage (uploadedFiles s) = [1, 3, 5]
     \<and> map endPage (uploadedFiles s) = [2, 4, 5]
     \<and> map pageCount (uploadedFiles s) = [2, 2, 1]
     \<and> concat (copied_ranges trace) = [0, 1, 2, 3, 4]"
proof -
  obtain s trace where run: "splitAndUploadPDF (demo_env 5 None) demo_path 2 None = Some (Success s, trace)"
    using demo_5_2 by blast
  have rd: "fs_readFile (demo_env 5 None) demo_path = Inr demo_bytes"
    and ld: "PDFDocument_load (demo_env 5 None) demo_bytes = Inr [0..<5]"
    by (simp_all add: demo_env_def)
  have n: "\<lceil>real (length [0..<5::nat]) / real (2::nat)\<rceil> = 3"
    by (simp add: ceiling_eq_iff)
  have big: "2 < length [0..<5::nat]" and pos: "(1::nat) \<le> 2"
    by simp_all
  note c = split_ranges_partition[OF run rd ld big pos, unfolded n]
  have len: "length (uploadedFiles s) = 3"
    using c by simp
  have upt3: "[0..<3] = [0, 1, 2]"
    by (simp add: upt_conv_Cons)
  from c have ranges: "copied_ranges trace = [[0, 1], [2, 3], [4]]"
    by (simp add: len upt3 upt_conv_Cons)
  from c have fields: "\<forall>i<3. startPage (uploadedFiles s ! i) = i * 2 + 1
        \<and> endPage (uploadedFiles s ! i) = min ((i + 1) * 2) 5
        \<and> pageCount (uploadedFiles s ! i) = length (copied_ranges trace ! i)"
    by (simp add: len)
  have "map startPage (uploadedFiles s) = [1, 3, 5]"
    "map endPage (uploadedFiles s) = [2, 4, 5]"
    "map pageCount (uploadedFiles s) = [2, 2, 1]"
    by (subst map_by_index, use fields ranges in \<open>simp add: len upt3\<close>)+
  moreover from c have "concat (copied_ranges trace) = [0, 1, 2, 3, 4]"
    by (simp add: upt_conv_Cons)
  ultimately show ?thesis
    using run len ranges by (intro exI[of _ s] exI[of _ trace]) simp
qed

subsection \<open>The names of the chunks\<close>

lemma upload_calls_append: "upload_calls (xs @ ys) = upload_calls xs @ upload_calls ys"
  by (induction xs rule: upload_calls.induct) simp_all

lemma upload_calls_concat: "upload_calls (concat xss) = concat (map upload_calls xss)"
  by (induction xss) (simp_all add: upload_calls_append)

lemma processUnit_upload_name:
  assumes "isl (fst (processUnit env pdfDoc base T P n cb k)) = False"
  shows "map (\<lambda>(k, bs, name). name) (upload_calls (snd (processUnit env pdfDoc base T P n cb k)))
           = [outputFilename base k (k * P) (min (k * P + P) T)]"
  using assms unfolding processUnit_def Let_def
  by (auto split: sum.splits option.splits)

text \<open>
  Claim C3. In a run that splits, the chunk with the 1-based sequence index \<open>i + 1\<close> and the
  0-based half-open range \<open>[i * P, min ((i + 1) * P) T)\<close> is uploaded and recorded under the
  name \<^verbatim>\<open>{baseName}_part_{i+1}_pages_{i*P+1}-{end}.pdf\<close>, which depends on the base name, the
  index and the range only; a document of 120 pages with base name \<^verbatim>\<open>doc\<close>, split by 50,
  gives \<^verbatim>\<open>doc_part_1_pages_1-50.pdf\<close>, \<^verbatim>\<open>doc_part_2_pages_51-100.pdf\<close> and
  \<^verbatim>\<open>doc_part_3_pages_101-120.pdf\<close>.
\<close>

theorem chunk_filenames:
  assumes run: "splitAndUploadPDF env inputPath P cb = Some (Success s, trace)"
    and rd: "fs_readFile env inputPath = Inr bs"
    and ld: "PDFDocument_load env bs = Inr pdfDoc"
    and big: "P < length pdfDoc"
  shows "map filename (uploadedFiles s)
      = map (\<lambda>i. path_basename env inputPath @ str ''_part_'' @ Number_toString (i + 1)
               @ str ''_pages_'' @ Number_toString (i * P + 1) @ str ''-''
               @ Number_toString (min ((i + 1) * P) (length pdfDoc)) @ str ''.pdf'')
          [0..<totalFiles s]
    \<and> map (\<lambda>(k, bs, name). name) (upload_calls trace) = map filename (uploadedFiles s)
    \<and> (length pdfDoc = 120 \<and> P = 50 \<and> path_basename env inputPath = str ''doc''
         \<longrightarrow> map filename (uploadedFiles s)
             = [str ''doc_part_1_pages_1-50.pdf'', str ''doc_part_2_pages_51-100.pdf'',
                str ''doc_part_3_pages_101-120.pdf''])"
proof -
  let ?T = "length pdfDoc"
  let ?n = "Math_ceil_div ?T P"
  let ?base = "path_basename env inputPath"
  let ?pu = "processUnit env pdfDoc ?base ?T P ?n cb"
  let ?name = "\<lambda>i. ?base @ str ''_part_'' @ Number_toString (i + 1)
               @ str ''_pages_'' @ Number_toString (i * P + 1) @ str ''-''
               @ Number_toString (min ((i + 1) * P) ?T) @ str ''.pdf''"
  note ok = split_run_Success[OF run rd ld big]
  have suc: "(i + 1) * P = i * P + P" for i
    by simp
  have name: "filename (projr (fst (?pu i))) = ?name i" if "i < ?n" for i
    using unit_record_fields(4)[of env pdfDoc ?base ?T P ?n cb i] ok(2) that
    unfolding outputFilename_def suc by simp
  have names: "map filename (uploadedFiles s) = map ?name [0..<totalFiles s]"
    unfolding ok(3) ok(5) by (simp add: name del: mult_Suc)
  have unit: "map (\<lambda>(k, bs, name). name) (upload_calls (snd (?pu i))) = [?name i]" if "i < ?n" for i
    using processUnit_upload_name[of env pdfDoc ?base ?T P ?n cb i] ok(2) that
    unfolding outputFilename_def suc by simp
  have eq: "map (\<lambda>i. map (\<lambda>(k, bs, name). name) (upload_calls (snd (?pu i)))) [0..<?n]
      = map (\<lambda>i. [?name i]) [0..<?n]"
    by (rule map_cong[OF refl]) (simp add: unit)
  have "map (\<lambda>(k, bs, name). name) (upload_calls trace)
      = concat (map (\<lambda>i. map (\<lambda>(k, bs, name). name) (upload_calls (snd (?pu i)))) [0..<?n])"
    unfolding ok(4) upload_calls_concat map_concat by (simp add: comp_def)
  also have "\<dots> = concat (map (\<lambda>i. [?name i]) [0..<?n])"
    by (simp only: eq)
  also have "\<dots> = map ?name [0..<?n]"
    by (rule concat_map_singleton)
  finally have "map (\<lambda>(k, bs, name). name) (upload_calls trace) = map ?name [0..<?n]" .
  with names ok(5) have calls:
    "map (\<lambda>(k, bs, name). name) (upload_calls trace) = map filename (uploadedFiles s)"
    by simp
  have scenario: "map filename (uploadedFiles s)
      = [str ''doc_part_1_pages_1-50.pdf'', str ''doc_part_2_pages_51-100.pdf'',
         str ''doc_part_3_pages_101-120.pdf'']"
    if "?T = 120" "P = 50" "?base = str ''doc''"
  proof -
    have "totalFiles s = 3"
      using ok(5) that by (simp add: Math_ceil_div_def)
    moreover have "[0..<3] = [0, 1, 2]"
      by (simp add: upt_conv_Cons)
    ultimately show ?thesis
      using names that by (simp add: Number_toString.simps digit_def str_def)
  qed
  from names calls scenario show ?thesis
    by blast
qed


lemma demo_120_50:
  "\<exists>s trace. splitAndUploadPDF (demo_env 120 None) demo_path 50 None = Some (Success s, trace)"
  by (simp add: demo_eval)

theorem chunk_filenames_witness:
  "\<exists>s trace. splitAndUploadPDF (demo_env 120 None) demo_path 50 None = Some (Success s, trace)
     \<and> map filename (uploadedFiles s)
         = [str ''doc_part_1_pages_1-50.pdf'', str ''doc_part_2_pages_51-100.pdf'',
            str ''doc_part_3_pages_101-120.pdf'']
     \<and> map (\<lambda>(k, bs, name). name) (upload_calls trace)
         = [str ''doc_part_1_pages_1-50.pdf'', str ''doc_part_2_pages_51-100.pdf'',
            str ''doc_part_3_pages_101-120.pdf'']"
proof -
  obtain s trace where
    run: "splitAndUploadPDF (demo_env 120 None) demo_path 50 None = Some (Success s, trace)"
    using demo_120_50 by (elim exE) (rule that)
  have rd: "fs_readFile (demo_env 120 None) demo_path = Inr demo_bytes"
    and ld: "PDFDocument_load (demo_env 120 None) demo_bytes = Inr [0..<120]"
    and base: "path_basename (demo_env 120 None) demo_path = str ''doc''"
    by (simp_all add: demo_env_def)
  have big: "50 < length [0..<120::nat]"
    by simp
  note c = chunk_filenames[OF run rd ld big]
  from c have calls:
    "map (\<lambda>(k, bs, name). name) (upload_calls trace) = map filename (uploadedFiles s)"
    by (rule conjunct1[OF conjunct2])
  from c have "length [0..<120::nat] = 120 \<and> (50::nat) = 50
      \<and> path_basename (demo_env 120 None) demo_path = str ''doc''
    \<longrightarrow> map filename (uploadedFiles s)
         = [str ''doc_part_1_pages_1-50.pdf'', str ''doc_part_2_pages_51-100.pdf'',
            str ''doc_part_3_pages_101-120.pdf'']"
    by (rule conjunct2[OF conjunct2])
  then have names: "map filename (uploadedFiles s)
         = [str ''doc_part_1_pages_1-50.pdf'', str ''doc_part_2_pages_51-100.pdf'',
            str ''doc_part_3_pages_101-120.pdf'']"
    by (rule mp) (simp add: base)
  from calls names
  have "map (\<lambda>(k, bs, name). name) (upload_calls trace)
         = [str ''doc_part_1_pages_1-50.pdf'', str ''doc_part_2_pages_51-100.pdf'',
            str ''doc_part_3_pages_101-120.pdf'']"
    by (simp only:)
  with names run show ?thesis
    by (intro exI[of _ s] exI[of _ trace] conjI)
qed

subsection \<open>A document that needs no splitting\<close>

text \<open>
  Claim C2, amended. When the document has at most \<open>P\<close> pages and the upload resolves, the run
  copies no page range, uploads the bytes it read as one unit and returns a successful result
  with \<^verbatim>\<open>totalFiles\<close> 1 whose only upload record has \<^verbatim>\<open>startPage\<close> 1 and
  \<^verbatim>\<open>endPage\<close> \<open>T\<close>; with \<open>T = 0\<close> this is the same run of one unit, with the record
  from 1 to 0 and no pages, and not an error.
\<close>

theorem unsplit_upload:
  assumes rd: "fs_readFile env inputPath = Inr bs"
    and ld: "PDFDocument_load env bs = Inr pdfDoc"
    and small: "length pdfDoc \<le> P"
    and up: "files_upload env 0 bs (path_basename env inputPath @ str ''.pdf'') = Inr uploadResult"
  shows "splitAndUploadPDF env inputPath P onProgress =
      Some (Success \<lparr>message = str ''PDF uploaded without splitting (fewer pages than split size)'',
              totalPages = length pdfDoc,
              totalFiles = 1,
              pagesPerFile = None,
              uploadedFiles = [\<lparr>fileId = response_id uploadResult,
                filename = response_filename uploadResult,
                originalFilename = None,
                startPage = 1,
                endPage = length pdfDoc,
                pageCount = length pdfDoc,
                uploadedAt = None\<rparr>]\<rparr>,
            [Upload 0 bs (path_basename env inputPath @ str ''.pdf'') (Inr uploadResult)])
    \<and> copied_ranges (snd (the (splitAndUploadPDF env inputPath P onProgress))) = []
    \<and> upload_calls (snd (the (splitAndUploadPDF env inputPath P onProgress)))
        = [(0, bs, path_basename env inputPath @ str ''.pdf'')]"
  using assms by (simp add: splitAndUploadPDF_def Let_def)

theorem unsplit_upload_witness:
  "splitAndUploadPDF (demo_env 30 None) demo_path 50 None =
      Some (Success \<lparr>message = str ''PDF uploaded without splitting (fewer pages than split size)'',
              totalPages = 30,
              totalFiles = 1,
              pagesPerFile = None,
              uploadedFiles = [\<lparr>fileId = str ''file_0'',
                filename = str ''doc.pdf'',
                originalFilename = None,
                startPage = 1,
                endPage = 30,
                pageCount = 30,
                uploadedAt = None\<rparr>]\<rparr>,
            [Upload 0 demo_bytes (str ''doc.pdf'')
               (Inr \<lparr>response_id = str ''file_0'', response_filename = str ''doc.pdf'',
                      response_created_at = str ''2025''\<rparr>)])
   \<and> copied_ranges (snd (the (splitAndUploadPDF (demo_env 30 None) demo_path 50 None))) = []
   \<and> upload_calls (snd (the (splitAndUploadPDF (demo_env 30 None) demo_path 50 None)))
       = [(0, demo_bytes, str ''doc.pdf'')]
   \<and> upload_calls (snd (the (splitAndUploadPDF (demo_env 50 None) demo_path 50 None)))
       = [(0, demo_bytes, str ''doc.pdf'')]
   \<and> copied_ranges (snd (the (splitAndUploadPDF (demo_env 50 None) demo_path 50 None))) = []"
proof -
  have rd: "fs_readFile (demo_env n None) demo_path = Inr demo_bytes"
    and ld: "PDFDocument_load (demo_env n None) demo_bytes = Inr [0..<n]"
    and up: "files_upload (demo_env n None) 0 demo_bytes
               (path_basename (demo_env n None) demo_path @ str ''.pdf'')
             = Inr \<lparr>response_id = str ''file_0'', response_filename = str ''doc.pdf'',
                     response_created_at = str ''2025''\<rparr>" for n
    by (simp_all add: demo_env_def digit_def str_def)
  have small: "length [0..<30::nat] \<le> 50" "length [0..<50::nat] \<le> 50"
    by simp_all
  have base: "path_basename (demo_env n None) demo_path @ str ''.pdf'' = str ''doc.pdf''" for n
    by (simp add: demo_env_def str_def)
  have len: "length [0..<30::nat] = 30"
    by simp
  from unsplit_upload[OF rd ld small(1) up, of None] unsplit_upload[OF rd ld small(2) up, of None]
  show ?thesis
    unfolding base len by simp
qed

text \<open>
  Claim C2 as stated fails at the empty document: the run with \<open>T = 0\<close> is not a run of zero
  units. It makes one upload and returns \<^verbatim>\<open>totalFiles\<close> 1 with one upload record, from
  page 1 to page 0.
\<close>

theorem unsplit_empty_counterexample:
  "splitAndUploadPDF (demo_env 0 None) demo_path 50 None =
      Some (Success \<lparr>message = str ''PDF uploaded without splitting (fewer pages than split size)'',
              totalPages = 0,
              totalFiles = 1,
              pagesPerFile = None,
              uploadedFiles = [\<lparr>fileId = str ''file_0'',
                filename = str ''doc.pdf'',
                originalFilename = None,
                startPage = 1,
                endPage = 0,
                pageCount = 0,
                uploadedAt = None\<rparr>]\<rparr>,
            [Upload 0 demo_bytes (str ''doc.pdf'')
               (Inr \<lparr>response_id = str ''file_0'', response_filename = str ''doc.pdf'',
                      response_created_at = str ''2025''\<rparr>)])
   \<and> length (upload_calls (snd (the (splitAndUploadPDF (demo_env 0 None) demo_path 50 None)))) = 1"
  by (simp add: splitAndUploadPDF_def demo_env_def demo_path_def demo_bytes_def digit_def str_def Let_def)

subsection \<open>A failed upload\<close>

lemma processUnit_failed_upload:
  assumes "Upload k bs name (Inl e) \<in> set (snd (processUnit env pdfDoc base T P n cb i))"
  shows "fst (processUnit env pdfDoc base T P n cb i) = Inl e"
  using assms unfolding processUnit_def Let_def
  by (auto split: sum.splits option.splits)

lemma uploadLoop_failed_upload:
  assumes loop: "uploadLoop env pdfDoc base T P n cb 0 [] [] = (out, t)"
    and fail: "Upload k bs name (Inl e) \<in> set t"
  shows "out = Inl e"
proof (cases out)
  case (Inr fs)
  from uploadLoop_Inr[OF loop[unfolded Inr]] fail obtain i where "i < n"
    "Upload k bs name (Inl e) \<in> set (snd (processUnit env pdfDoc base T P n cb i))"
    "isl (fst (processUnit env pdfDoc base T P n cb i)) = False"
    by auto
  with processUnit_failed_upload[of k bs name e env pdfDoc base T P n cb i] show ?thesis
    by simp
next
  case (Inl e')
  from uploadLoop_Inl[OF loop[unfolded Inl]] obtain m where m:
    "\<forall>i. 0 \<le> i \<and> i < m \<longrightarrow> isl (fst (processUnit env pdfDoc base T P n cb i)) = False"
    "fst (processUnit env pdfDoc base T P n cb m) = Inl e'"
    "t = concat (map (\<lambda>i. snd (processUnit env pdfDoc base T P n cb i)) [0..<m])
           @ snd (processUnit env pdfDoc base T P n cb m)"
    by auto
  from fail m(3) consider
    (before) i where "i < m" "Upload k bs name (Inl e) \<in> set (snd (processUnit env pdfDoc base T P n cb i))"
    | (last) "Upload k bs name (Inl e) \<in> set (snd (processUnit env pdfDoc base T P n cb m))"
    by auto
  then show ?thesis
  proof cases
    case before
    with processUnit_failed_upload[of k bs name e env pdfDoc base T P n cb i] m(1) show ?thesis
      by auto
  next
    case last
    with processUnit_failed_upload[of k bs name e env pdfDoc base T P n cb m] m(2) Inl show ?thesis
      by simp
  qed
qed

text \<open>
  Claim C5. When an upload of a run rejects with \<open>e\<close>, however many uploads resolved before
  it, the run ends there: the result is \<^verbatim>\<open>{success: false, error, details}\<close> with the
  message and the stack of \<open>e\<close>, it is no successful result and so carries no upload records,
  and the last effect is the log of \<open>e\<close>.
\<close>

theorem failed_upload_aborts:
  assumes run: "splitAndUploadPDF env inputPath P onProgress = Some (res, trace)"
    and fail: "Upload k bs name (Inl e) \<in> set trace"
  shows "res = Failure (error_message e) (error_stack e)
    \<and> (\<nexists>s. res = Success s)
    \<and> last trace = ConsoleError (str ''Error splitting and uploading PDF:'') e"
proof -
  have "res = Failure (error_message e) (error_stack e)
      \<and> last trace = ConsoleError (str ''Error splitting and uploading PDF:'') e"
  proof (cases "fs_readFile env inputPath")
    case (Inl e')
    with run fail show ?thesis
      by (auto simp: splitAndUploadPDF_def caught_def)
  next
    case rd: (Inr existingPdfBytes)
    show ?thesis
    proof (cases "PDFDocument_load env existingPdfBytes")
      case (Inl e')
      with run fail rd show ?thesis
        by (auto simp: splitAndUploadPDF_def caught_def)
    next
      case ld: (Inr pdfDoc)
      show ?thesis
      proof (cases "length pdfDoc \<le> P")
        case True
        with run fail rd ld show ?thesis
          by (auto simp: splitAndUploadPDF_def caught_def Let_def split: sum.splits)
      next
        case False
        let ?n = "Math_ceil_div (length pdfDoc) P"
        let ?base = "path_basename env inputPath"
        obtain out t where
          loop: "uploadLoop env pdfDoc ?base (length pdfDoc) P ?n onProgress 0 [] [] = (out, t)"
          by (cases "uploadLoop env pdfDoc ?base (length pdfDoc) P ?n onProgress 0 [] []")
        have p: "P \<noteq> 0"
          using run rd ld False by (auto simp: splitAndUploadPDF_def Let_def split: if_splits)
        show ?thesis
        proof (cases out)
          case (Inr fs)
          with run rd ld False p loop have "t = trace"
            by (simp add: splitAndUploadPDF_def Let_def)
          with uploadLoop_failed_upload[OF loop] fail Inr show ?thesis
            by blast
        next
          case (Inl e')
          with run rd ld False p loop have res: "(res, trace) = caught e' t"
            by (simp add: splitAndUploadPDF_def Let_def)
          with fail have "Upload k bs name (Inl e) \<in> set t"
            by (auto simp: caught_def)
          with uploadLoop_failed_upload[OF loop] Inl have "e' = e"
            by simp
          with res show ?thesis
            by (auto simp: caught_def)
        qed
      qed
    qed
  qed
  then show ?thesis
    by simp
qed

lemma demo_5_2_fail:
  "\<exists>trace. splitAndUploadPDF (demo_env 5 (Some 2)) demo_path 2 None
       = Some (Failure (str ''upload failed'') (str ''at files.upload''), trace)
     \<and> Upload 2 [1] (str ''doc_part_3_pages_5-5.pdf'') (Inl demo_error) \<in> set trace
     \<and> map fst (upload_calls trace) = [0, 1, 2]"
  by (simp add: demo_eval outputFilename_def Number_toString.simps digit_def str_def)

theorem failed_upload_aborts_witness:
  "\<exists>trace. splitAndUploadPDF (demo_env 5 (Some 2)) demo_path 2 None
       = Some (Failure (error_message demo_error) (error_stack demo_error), trace)
     \<and> Upload 2 [1] (str ''doc_part_3_pages_5-5.pdf'') (Inl demo_error) \<in> set trace
     \<and> map fst (upload_calls trace) = [0, 1, 2]
     \<and> last trace = ConsoleError (str ''Error splitting and uploading PDF:'') demo_error"
proof -
  obtain trace where run: "splitAndUploadPDF (demo_env 5 (Some 2)) demo_path 2 None
       = Some (Failure (str ''upload failed'') (str ''at files.upload''), trace)"
    and fail: "Upload 2 [1] (str ''doc_part_3_pages_5-5.pdf'') (Inl demo_error) \<in> set trace"
    and calls: "map fst (upload_calls trace) = [0, 1, 2]"
    using demo_5_2_fail by (elim exE conjE) (rule that)
  from failed_upload_aborts[OF run fail] run fail calls show ?thesis
    by (intro exI[of _ trace]) simp
qed

subsection \<open>Progress reports\<close>

lemma processUnit_Upload_Progress:
  "filter is_Upload_or_Progress (snd (processUnit env pdfDoc base T P n (Some f) i)) =
     (case copyPages env pdfDoc [i * P..<min (i * P + P) T] of
        Inl e \<Rightarrow> []
      | Inr copied \<Rightarrow>
          (case save env copied of
             Inl e \<Rightarrow> []
           | Inr bs \<Rightarrow>
               (case files_upload env i bs (outputFilename base i (i * P) (min (i * P + P) T)) of
                  Inl e \<Rightarrow> [Upload i bs (outputFilename base i (i * P) (min (i * P + P) T)) (Inl e)]
                | Inr resp \<Rightarrow>
                    [Upload i bs (outputFilename base i (i * P) (min (i * P + P) T)) (Inr resp),
                     Progress \<lparr>current = i + 1, total = n, percentage = percent (i + 1) n,
                       currentFile = outputFilename base i (i * P) (min (i * P + P) T),
                       progress_fileId = response_id resp\<rparr>])))"
  by (simp add: processUnit_def Let_def split: sum.splits option.splits)

lemma progress_calls_append: "progress_calls (xs @ ys) = progress_calls xs @ progress_calls ys"
  by (induction xs rule: progress_calls.induct) simp_all

text \<open>
  Claim C4, amended. In a run that splits (\<open>P < T\<close>) with a progress callback, the uploads and
  the calls of the callback alternate: the upload of unit \<open>i\<close> resolves, then the callback is
  called once with \<^verbatim>\<open>current\<close> \<open>i\<close>, \<^verbatim>\<open>total\<close> \<open>n\<close>, the percentage
  \<^verbatim>\<open>Math.round((i / n) * 100)\<close> of double arithmetic, the name of the unit and the
  identifier the upload returned, and only then the next upload begins; a run that fails
  stops after a callback, after a rejected upload or before an upload, and a run that
  succeeds has made all \<open>n\<close> calls, in the order of the records it returns. A run that does not
  split (\<open>T \<le> P\<close>) never calls the callback.
\<close>

theorem progress_once_per_unit:
  assumes run: "splitAndUploadPDF env inputPath P (Some callback) = Some (res, trace)"
    and rd: "fs_readFile env inputPath = Inr bs"
    and ld: "PDFDocument_load env bs = Inr pdfDoc"
  shows "(P < length pdfDoc \<longrightarrow>
      (\<exists>m upl resp tail.
          m \<le> Math_ceil_div (length pdfDoc) P
        \<and> filter is_Upload_or_Progress trace
            = concat (map (\<lambda>i.
                [Upload i (upl i)
                   (outputFilename (path_basename env inputPath) i (i * P)
                      (min ((i + 1) * P) (length pdfDoc)))
                   (Inr (resp i)),
                 Progress \<lparr>current = i + 1,
                   total = Math_ceil_div (length pdfDoc) P,
                   percentage = percent (i + 1) (Math_ceil_div (length pdfDoc) P),
                   currentFile = outputFilename (path_basename env inputPath) i (i * P)
                      (min ((i + 1) * P) (length pdfDoc)),
                   progress_fileId = response_id (resp i)\<rparr>]) [0..<m]) @ tail
        \<and> (tail = [] \<or> (\<exists>e. tail =
              [Upload m (upl m)
                 (outputFilename (path_basename env inputPath) m (m * P)
                    (min ((m + 1) * P) (length pdfDoc)))
                 (Inl e)]))
        \<and> (\<forall>s. res = Success s \<longrightarrow>
              m = Math_ceil_div (length pdfDoc) P \<and> tail = []
            \<and> map fileId (uploadedFiles s) = map (\<lambda>i. response_id (resp i)) [0..<m])))
    \<and> (length pdfDoc \<le> P \<longrightarrow> progress_calls trace = [])"
proof (intro conjI impI)
  assume small: "length pdfDoc \<le> P"
  with run rd ld show "progress_calls trace = []"
    by (auto simp: splitAndUploadPDF_def Let_def caught_def split: sum.splits)
next
  assume big: "P < length pdfDoc"
  let ?T = "length pdfDoc"
  let ?n = "Math_ceil_div ?T P"
  let ?base = "path_basename env inputPath"
  let ?pu = "processUnit env pdfDoc ?base ?T P ?n (Some callback)"
  let ?U = "\<lambda>i. filter is_Upload_or_Progress (snd (?pu i))"
  define name where "name i = outputFilename ?base i (i * P) (min (i * P + P) ?T)" for i
  define upl where "upl i = projr (save env (projr (copyPages env pdfDoc [i * P..<min (i * P + P) ?T])))" for i
  define resp where "resp i = projr (files_upload env i (upl i) (name i))" for i
  define good where "good i = [Upload i (upl i) (name i) (Inr (resp i)),
      Progress \<lparr>current = i + 1, total = ?n, percentage = percent (i + 1) ?n,
        currentFile = name i, progress_fileId = response_id (resp i)\<rparr>]" for i
  have cases: "?U i = [] \<or> (\<exists>e. ?U i = [Upload i (upl i) (name i) (Inl e)]) \<or> ?U i = good i" for i
    unfolding processUnit_Upload_Progress good_def resp_def upl_def name_def
    by (simp split: sum.splits)
  have ok: "?U i = good i \<and> fileId (projr (fst (?pu i))) = response_id (resp i)"
    if "isl (fst (?pu i)) = False" for i
  proof -
    obtain out evs where pu: "?pu i = (out, evs)"
      by (cases "?pu i")
    with that obtain r where "out = Inr r"
      by (cases out) simp_all
    with pu have unit: "?pu i = (Inr r, evs)"
      by simp
    from unit obtain copied bs0 rsp where
      "copyPages env pdfDoc [i * P..<min (i * P + P) ?T] = Inr copied"
      "save env copied = Inr bs0"
      "files_upload env i bs0 (outputFilename ?base i (i * P) (min (i * P + P) ?T)) = Inr rsp"
      "fileId r = response_id rsp"
      by (rule processUnit_Inr) simp
    then show ?thesis
      unfolding processUnit_Upload_Progress unfolding unit good_def resp_def upl_def name_def
      by simp
  qed
  have prefix: "concat (map ?U [0..<m]) = concat (map good [0..<m])"
    if "\<forall>k. 0 \<le> k \<and> k < m \<longrightarrow> isl (fst (?pu k)) = False" for m
  proof -
    have "map ?U [0..<m] = map good [0..<m]"
      by (rule map_cong[OF refl]) (use that ok in simp)
    then show ?thesis
      by (simp only:)
  qed
  obtain out t where loop: "uploadLoop env pdfDoc ?base ?T P ?n (Some callback) 0 [] [] = (out, t)"
    by (cases "uploadLoop env pdfDoc ?base ?T P ?n (Some callback) 0 [] []")
  have p: "P \<noteq> 0"
    using run rd ld big by (auto simp: splitAndUploadPDF_def Let_def split: if_splits)
  have "\<exists>m tail. m \<le> ?n
      \<and> filter is_Upload_or_Progress trace = concat (map good [0..<m]) @ tail
      \<and> (tail = [] \<or> (\<exists>e. tail = [Upload m (upl m) (name m) (Inl e)]))
      \<and> (\<forall>s. res = Success s \<longrightarrow> m = ?n \<and> tail = []
            \<and> map fileId (uploadedFiles s) = map (\<lambda>i. response_id (resp i)) [0..<m])"
  proof (cases out)
    case (Inr fs)
    with run rd ld big p loop have res: "res = Success \<lparr>message = str ''Successfully split and uploaded PDF into ''
                 @ Number_toString ?n @ str '' files'',
               totalPages = ?T, totalFiles = ?n, pagesPerFile = Some P,
               uploadedFiles = fs\<rparr>" and t: "t = trace"
      by (simp_all add: splitAndUploadPDF_def Let_def)
    note inv = uploadLoop_Inr[OF loop[unfolded Inr]]
    from inv have all: "\<forall>k. 0 \<le> k \<and> k < ?n \<longrightarrow> isl (fst (?pu k)) = False"
      by simp
    from inv t have "filter is_Upload_or_Progress trace = concat (map ?U [0..<?n])"
      by (simp add: filter_concat comp_def)
    with prefix[OF all] have tr: "filter is_Upload_or_Progress trace = concat (map good [0..<?n]) @ []"
      by simp
    have "map (\<lambda>k. fileId (projr (fst (?pu k)))) [0..<?n] = map (\<lambda>i. response_id (resp i)) [0..<?n]"
      by (rule map_cong[OF refl]) (use all ok in simp)
    with inv have ids: "map fileId fs = map (\<lambda>i. response_id (resp i)) [0..<?n]"
      by (simp add: comp_def)
    show ?thesis
      by (rule exI[of _ ?n], rule exI[of _ "[]"]) (use tr ids res in simp)
  next
    case (Inl e')
    with run rd ld big p loop have res: "(res, trace) = caught e' t"
      by (simp add: splitAndUploadPDF_def Let_def)
    then have fail: "\<forall>s. res \<noteq> Success s"
      and tr: "filter is_Upload_or_Progress trace = filter is_Upload_or_Progress t"
      by (auto simp: caught_def)
    from uploadLoop_Inl[OF loop[unfolded Inl]] obtain m where m: "m < ?n"
      "\<forall>k. 0 \<le> k \<and> k < m \<longrightarrow> isl (fst (?pu k)) = False"
      "t = concat (map (\<lambda>k. snd (?pu k)) [0..<m]) @ snd (?pu m)"
      by auto
    from m(3) tr have "filter is_Upload_or_Progress trace = concat (map ?U [0..<m]) @ ?U m"
      by (simp add: filter_concat comp_def)
    with prefix[OF m(2)] have shape: "filter is_Upload_or_Progress trace = concat (map good [0..<m]) @ ?U m"
      by simp
    from cases[of m] consider (none) "?U m = []"
      | (failed) e where "?U m = [Upload m (upl m) (name m) (Inl e)]"
      | (threw) "?U m = good m"
      by blast
    then show ?thesis
    proof cases
      case none
      show ?thesis
        by (rule exI[of _ m], rule exI[of _ "[]"]) (use m(1) shape none fail in simp)
    next
      case failed
      show ?thesis
        by (rule exI[of _ m], rule exI[of _ "[Upload m (upl m) (name m) (Inl e)]"])
          (use m(1) shape failed fail in simp)
    next
      case threw
      show ?thesis
        by (rule exI[of _ "Suc m"], rule exI[of _ "[]"]) (use m(1) shape threw fail in simp)
    qed
  qed
  then obtain m tail where "m \<le> ?n"
      "filter is_Upload_or_Progress trace = concat (map good [0..<m]) @ tail"
      "tail = [] \<or> (\<exists>e. tail = [Upload m (upl m) (name m) (Inl e)])"
      "\<forall>s. res = Success s \<longrightarrow> m = ?n \<and> tail = []
            \<and> map fileId (uploadedFiles s) = map (\<lambda>i. response_id (resp i)) [0..<m]"
    by blast
  then show "\<exists>m upl resp tail.
          m \<le> Math_ceil_div (length pdfDoc) P
        \<and> filter is_Upload_or_Progress trace
            = concat (map (\<lambda>i.
                [Upload i (upl i)
                   (outputFilename (path_basename env inputPath) i (i * P)
                      (min ((i + 1) * P) (length pdfDoc)))
                   (Inr (resp i)),
                 Progress \<lparr>current = i + 1,
                   total = Math_ceil_div (length pdfDoc) P,
                   percentage = percent (i + 1) (Math_ceil_div (length pdfDoc) P),
                   currentFile = outputFilename (path_basename env inputPath) i (i * P)
                      (min ((i + 1) * P) (length pdfDoc)),
                   progress_fileId = response_id (resp i)\<rparr>]) [0..<m]) @ tail
        \<and> (tail = [] \<or> (\<exists>e. tail =
              [Upload m (upl m)
                 (outputFilename (path_basename env inputPath) m (m * P)
                    (min ((m + 1) * P) (length pdfDoc)))
                 (Inl e)]))
        \<and> (\<forall>s. res = Success s \<longrightarrow>
              m = Math_ceil_div (length pdfDoc) P \<and> tail = []
            \<and> map fileId (uploadedFiles s) = map (\<lambda>i. response_id (resp i)) [0..<m])"
    unfolding good_def name_def
    by (intro exI[of _ m] exI[of _ upl] exI[of _ resp] exI[of _ tail]) (simp add: add.commute)
qed

lemma progress_calls_filter:
  "progress_calls (filter is_Upload_or_Progress evs) = progress_calls evs"
  by (induction evs rule: progress_calls.induct) simp_all

lemma split_run_names:
  assumes run: "splitAndUploadPDF env inputPath P cb = Some (Success s, trace)"
    and rd: "fs_readFile env inputPath = Inr bs"
    and ld: "PDFDocument_load env bs = Inr pdfDoc"
    and big: "P < length pdfDoc"
  shows "map filename (uploadedFiles s)
      = map (\<lambda>i. outputFilename (path_basename env inputPath) i (i * P)
                (min (i * P + P) (length pdfDoc))) [0..<Math_ceil_div (length pdfDoc) P]"
proof -
  note ok = split_run_Success[OF run rd ld big]
  show ?thesis
    unfolding ok(3) map_map comp_def
    by (rule map_cong[OF refl])
      (use ok(2) unit_record_fields(4)[of env pdfDoc "path_basename env inputPath" "length pdfDoc" P
         "Math_ceil_div (length pdfDoc) P" cb] in simp)
qed

lemma demo_5_2_progress:
  "\<exists>s trace. splitAndUploadPDF (demo_env 5 None) demo_path 2 (Some demo_callback)
     = Some (Success s, trace)"
  by (simp add: demo_eval demo_callback_def)

lemma percent_thirds: "percent 1 3 = 33" "percent 2 3 = 67" "percent 3 3 = 100"
  by (simp_all add: percent_eval)

theorem progress_once_per_unit_witness:
  "\<exists>s trace. splitAndUploadPDF (demo_env 5 None) demo_path 2 (Some demo_callback)
       = Some (Success s, trace)
     \<and> map current (progress_calls trace) = [1, 2, 3]
     \<and> map total (progress_calls trace) = [3, 3, 3]
     \<and> map percentage (progress_calls trace) = [33, 67, 100]
     \<and> map currentFile (progress_calls trace) = map filename (uploadedFiles s)
     \<and> map progress_fileId (progress_calls trace) = map fileId (uploadedFiles s)
     \<and> map (\<lambda>ev. case ev of Progress info \<Rightarrow> current info | _ \<Rightarrow> 0)
           (filter is_Upload_or_Progress trace) = [0, 1, 0, 2, 0, 3]"
proof -
  obtain s trace where
    run: "splitAndUploadPDF (demo_env 5 None) demo_path 2 (Some demo_callback) = Some (Success s, trace)"
    using demo_5_2_progress by (elim exE) (rule that)
  have rd: "fs_readFile (demo_env 5 None) demo_path = Inr demo_bytes"
    and ld: "PDFDocument_load (demo_env 5 None) demo_bytes = Inr [0..<5]"
    by (simp_all add: demo_env_def)
  have n: "Math_ceil_div (length [0..<5::nat]) 2 = 3"
    by (simp add: Math_ceil_div_def)
  have upt3: "[0..<3] = [0, 1, 2]"
    by (simp add: upt_conv_Cons)
  from progress_once_per_unit[OF run rd ld, unfolded n]
  obtain upl resp where shape: "filter is_Upload_or_Progress trace
      = concat (map (\<lambda>i.
          [Upload i (upl i)
             (outputFilename (path_basename (demo_env 5 None) demo_path) i (i * 2)
                (min ((i + 1) * 2) (length [0..<5::nat])))
             (Inr (resp i)),
           Progress \<lparr>current = i + 1, total = 3, percentage = percent (i + 1) 3,
             currentFile = outputFilename (path_basename (demo_env 5 None) demo_path) i (i * 2)
                (min ((i + 1) * 2) (length [0..<5::nat])),
             progress_fileId = response_id (resp i)\<rparr>]) [0..<3])"
    and ids: "map fileId (uploadedFiles s) = map (\<lambda>i. response_id (resp i)) [0..<3]"
    by auto
  have calls: "progress_calls trace = progress_calls (filter is_Upload_or_Progress trace)"
    by (simp only: progress_calls_filter)
  have big: "2 < length [0..<5::nat]"
    by simp
  from split_run_names[OF run rd ld big]
  have names: "map filename (uploadedFiles s)
      = map (\<lambda>i. outputFilename (path_basename (demo_env 5 None) demo_path) i (i * 2)
                (min ((i + 1) * 2) (length [0..<5::nat]))) [0..<3]"
    unfolding n by (simp add: add.commute)
  have one: "percent (Suc 0) 3 = 33" and two: "percent (Suc (Suc 0)) 3 = 67"
    using percent_thirds(1,2) by (simp_all add: numeral_2_eq_2)
  show ?thesis
    apply (intro exI[of _ s] exI[of _ trace] conjI)
          apply (rule run)
         apply (simp_all only: calls shape names ids upt3)
         apply (simp_all add: percent_thirds one two)
    done
qed

text \<open>
  Claim C4 as stated fails for a document that is not split: 30 pages with threshold 50 are
  uploaded as one unit and the run succeeds, and the callback it was given is not called.
\<close>

theorem progress_unsplit_counterexample:
  "splitAndUploadPDF (demo_env 30 None) demo_path 50 (Some demo_callback) =
      Some (Success \<lparr>message = str ''PDF uploaded without splitting (fewer pages than split size)'',
              totalPages = 30,
              totalFiles = 1,
              pagesPerFile = None,
              uploadedFiles = [\<lparr>fileId = str ''file_0'',
                filename = str ''doc.pdf'',
                originalFilename = None,
                startPage = 1,
                endPage = 30,
                pageCount = 30,
                uploadedAt = None\<rparr>]\<rparr>,
            [Upload 0 demo_bytes (str ''doc.pdf'')
               (Inr \<lparr>response_id = str ''file_0'', response_filename = str ''doc.pdf'',
                      response_created_at = str ''2025''\<rparr>)])
   \<and> progress_calls
        (snd (the (splitAndUploadPDF (demo_env 30 None) demo_path 50 (Some demo_callback)))) = []"
  by (simp add: splitAndUploadPDF_def demo_env_def demo_path_def demo_bytes_def digit_def str_def Let_def)

subsection \<open>Replacing and trimming\<close>

lemma replaceAll_Nil [simp]: "replaceAll pat [] = []"
  by (simp add: replaceAll.simps)

lemma replaceAll_match:
  "pat \<noteq> [] \<Longrightarrow> replaceAll pat (pat @ s) = replaceAll pat s"
  by (subst replaceAll.simps) simp

lemma replaceAll_no_match:
  "take (length pat) (c # s) \<noteq> pat \<Longrightarrow> replaceAll pat (c # s) = c # replaceAll pat s"
  by (subst replaceAll.simps) (auto simp: replaceAll.simps[of "[]"])

lemma take_eq_last_mem:
  assumes "take (length pat) r = pat" "pat \<noteq> []"
  shows "last pat \<in> set r"
proof -
  from assms have "last pat \<in> set (take (length pat) r)"
    by simp
  then show ?thesis
    by (rule in_set_takeD)
qed

lemma take_eq_hd_mem:
  assumes "take (length pat) (c # s) = pat" "pat \<noteq> []"
  shows "c \<in> set pat"
  using assms by (cases pat) auto

text \<open>A string without the last character of the pattern has no match.\<close>

lemma replaceAll_without_last:
  "last pat \<notin> set r \<Longrightarrow> replaceAll pat r = r"
proof (induction r)
  case Nil
  show ?case by simp
next
  case (Cons c r)
  show ?case
  proof (cases "pat = []")
    case True
    then show ?thesis by (simp add: replaceAll.simps)
  next
    case False
    with Cons.prems take_eq_last_mem[of pat "c # r"] have "take (length pat) (c # r) \<noteq> pat"
      by blast
    with Cons show ?thesis
      by (simp add: replaceAll_no_match)
  qed
qed

text \<open>Characters that are not in the pattern pass through.\<close>

lemma replaceAll_foreign_prefix:
  "set w \<inter> set pat = {} \<Longrightarrow> replaceAll pat (w @ s) = w @ replaceAll pat s"
proof (induction w)
  case Nil
  show ?case by simp
next
  case (Cons c w)
  show ?case
  proof (cases "pat = []")
    case True
    then show ?thesis by (simp add: replaceAll.simps)
  next
    case False
    with Cons.prems take_eq_hd_mem[of pat c "w @ s"] have "take (length pat) (c # w @ s) \<noteq> pat"
      by auto
    with Cons show ?thesis
      by (simp add: replaceAll_no_match)
  qed
qed

text \<open>No match runs into a tail that lacks the last character of the pattern.\<close>

lemma replaceAll_tail_without_last:
  "last pat \<notin> set r \<Longrightarrow> replaceAll pat (s @ r) = replaceAll pat s @ r"
proof (induction pat s rule: replaceAll.induct)
  case (1 pat s)
  show ?case
  proof (cases "pat = [] \<or> s = []")
    case True
    with "1.prems" show ?thesis
      by (auto simp: replaceAll_without_last replaceAll.simps[of "[]"])
  next
    case False
    then have pat: "pat \<noteq> []" and s: "s \<noteq> []"
      by simp_all
    show ?thesis
    proof (cases "take (length pat) s = pat")
      case True
      then have "length (take (length pat) s) = length pat"
        by simp
      then have len: "length pat \<le> length s"
        by simp
      from True have "replaceAll pat s = replaceAll pat (drop (length pat) s)"
        using pat s by (subst replaceAll.simps) simp
      moreover from True len have "replaceAll pat (s @ r) = replaceAll pat (drop (length pat) s @ r)"
        using pat s by (subst replaceAll.simps) simp
      ultimately show ?thesis
        using "1.IH"(1)[OF False True "1.prems"] by simp
    next
      case no: False
      obtain c cs where cs: "s = c # cs"
        using s by (cases s) auto
      have "take (length pat) (s @ r) \<noteq> pat"
      proof
        assume eq: "take (length pat) (s @ r) = pat"
        show False
        proof (cases "length pat \<le> length s")
          case True
          with eq no show False by simp
        next
          case False
          with eq have "pat = s @ take (length pat - length s) r"
            by simp
          moreover from this False have "take (length pat - length s) r \<noteq> []"
            by (metis append_Nil2 le_refl)
          ultimately have "last pat \<in> set (take (length pat - length s) r)"
            by (metis last_appendR last_in_set)
          then show False
            using "1.prems" by (auto dest: in_set_takeD)
        qed
      qed
      then have "replaceAll pat (s @ r) = c # replaceAll pat (cs @ r)"
        unfolding cs by (simp add: replaceAll_no_match)
      moreover from no have "replaceAll pat s = c # replaceAll pat cs"
        unfolding cs by (simp add: replaceAll_no_match)
      ultimately show ?thesis
        using "1.IH"(2)[OF False no "1.prems"] cs by simp
    qed
  qed
qed


text \<open>A character that is not in the pattern separates the matches.\<close>

lemma replaceAll_foreign_char:
  "c \<notin> set pat \<Longrightarrow> replaceAll pat (s @ c # r) = replaceAll pat s @ c # replaceAll pat r"
proof (induction pat s rule: replaceAll.induct)
  case (1 pat s)
  show ?case
  proof (cases "pat = []")
    case True
    then show ?thesis
      by (simp add: replaceAll.simps[of "[]"])
  next
    case pat: False
    show ?thesis
    proof (cases "s = []")
      case True
      from "1.prems" pat take_eq_hd_mem[of pat c r] have "take (length pat) (c # r) \<noteq> pat"
        by blast
      with True show ?thesis
        by (simp add: replaceAll_no_match)
    next
      case s: False
      from pat s have guard: "\<not> (pat = [] \<or> s = [])"
        by simp
      show ?thesis
      proof (cases "take (length pat) s = pat")
        case True
        then have "length (take (length pat) s) = length pat"
          by simp
        then have len: "length pat \<le> length s"
          by simp
        from True have "replaceAll pat s = replaceAll pat (drop (length pat) s)"
          using pat s by (subst replaceAll.simps) simp
        moreover from True len
        have "replaceAll pat (s @ c # r) = replaceAll pat (drop (length pat) s @ c # r)"
          using pat s by (subst replaceAll.simps) simp
        ultimately show ?thesis
          using "1.IH"(1)[OF guard True "1.prems"] by simp
      next
        case no: False
        obtain x xs where xs: "s = x # xs"
          using s by (cases s) auto
        have "take (length pat) (s @ c # r) \<noteq> pat"
        proof
          assume eq: "take (length pat) (s @ c # r) = pat"
          show False
          proof (cases "length pat \<le> length s")
            case True
            with eq no show False by simp
          next
            case False
            then obtain d where d: "length pat - length s = Suc d"
              by (cases "length pat - length s") simp_all
            with eq False have "pat = s @ c # take d r"
              by simp
            then have "c \<in> set pat"
              by (metis in_set_conv_decomp)
            with "1.prems" show False by simp
          qed
        qed
        then have "replaceAll pat (s @ c # r) = x # replaceAll pat (xs @ c # r)"
          unfolding xs by (simp add: replaceAll_no_match)
        moreover from no have "replaceAll pat s = x # replaceAll pat xs"
          unfolding xs by (simp add: replaceAll_no_match)
        ultimately show ?thesis
          using "1.IH"(2)[OF guard no "1.prems"] xs by simp
      qed
    qed
  qed
qed

text \<open>A pattern that repeats one character: a match appended at the end leaves nothing.\<close>

lemma replaceAll_run:
  assumes "0 < n"
  shows "replaceAll (replicate n c) (u @ replicate n c) = replaceAll (replicate n c) u"
proof (induction "replicate n c" u rule: replaceAll.induct)
  case (1 u)
  let ?pat = "replicate n c"
  have pat: "?pat \<noteq> []"
    using assms by simp
  show ?case
  proof (cases "u = []")
    case True
    with replaceAll_match[OF pat, of "[]"] show ?thesis
      by simp
  next
    case u: False
    from pat u have guard: "\<not> (?pat = [] \<or> u = [])"
      by simp
    show ?thesis
    proof (cases "take (length ?pat) u = ?pat")
      case True
      then have "length (take (length ?pat) u) = length ?pat"
        by simp
      then have len: "length ?pat \<le> length u"
        by simp
      from True have "replaceAll ?pat u = replaceAll ?pat (drop (length ?pat) u)"
        using pat u by (subst replaceAll.simps) simp
      moreover from True len
      have "replaceAll ?pat (u @ ?pat) = replaceAll ?pat (drop (length ?pat) u @ ?pat)"
        using pat u by (subst replaceAll.simps) simp
      ultimately show ?thesis
        using "1.hyps"(1)[OF guard True] by simp
    next
      case no: False
      obtain x xs where xs: "u = x # xs"
        using u by (cases u) auto
      show ?thesis
      proof (cases "take (length ?pat) (u @ ?pat) = ?pat")
        case False
        then have "replaceAll ?pat (u @ ?pat) = x # replaceAll ?pat (xs @ ?pat)"
          unfolding xs by (simp add: replaceAll_no_match)
        moreover from no have "replaceAll ?pat u = x # replaceAll ?pat xs"
          unfolding xs by (simp add: replaceAll_no_match)
        ultimately show ?thesis
          using "1.hyps"(2)[OF guard no] xs by simp
      next
        case True
        have short: "length u < n"
        proof (rule ccontr)
          assume "\<not> length u < n"
          with True no show False by simp
        qed
        with True have "take (length u) (u @ ?pat) = take (length u) ?pat"
          by (metis length_replicate less_imp_le_nat min.absorb1 take_take)
        with short have run: "u = replicate (length u) c"
          by simp
        then have "u @ ?pat = ?pat @ u"
          by (metis replicate_add add.commute)
        then have "replaceAll ?pat (u @ ?pat) = replaceAll ?pat u"
          using replaceAll_match[OF pat, of u] by simp
        then show ?thesis .
      qed
    qed
  qed
qed

lemma trim_whitespace_around:
  assumes "\<forall>c\<in>set w1. isWhiteSpace c" "\<forall>c\<in>set w2. isWhiteSpace c"
  shows "trim (w1 @ v @ w2) = trim v"
proof -
  have front: "dropWhile isWhiteSpace (w1 @ s) = dropWhile isWhiteSpace s" for s
    by (rule dropWhile_append2) (use assms(1) in blast)
  have rear: "dropWhile isWhiteSpace (rev w2 @ s) = dropWhile isWhiteSpace s" for s
    by (rule dropWhile_append2) (use assms(2) in simp)
  show ?thesis
  proof (cases "\<forall>c\<in>set v. isWhiteSpace c")
    case True
    with assms(2) have a: "dropWhile isWhiteSpace (v @ w2) = []"
      and b: "dropWhile isWhiteSpace v = []"
      by simp_all
    show ?thesis
      unfolding trim_def front a b by simp
  next
    case False
    then have "dropWhile isWhiteSpace (v @ w2) = dropWhile isWhiteSpace v @ w2"
      by (auto simp: dropWhile_append1)
    then show ?thesis
      by (simp add: trim_def front rear)
  qed
qed


lemma fence_characters:
  "str ''```json'' = [0x60, 0x60, 0x60, 0x6A, 0x73, 0x6F, 0x6E]"
  "str ''```'' = replicate 3 0x60"
  by (simp_all add: str_def numeral_3_eq_3)

lemma fence_not_whitespace:
  "\<not> isWhiteSpace 0x60" "\<not> isWhiteSpace 0x6A" "\<not> isWhiteSpace 0x73"
  "\<not> isWhiteSpace 0x6F" "\<not> isWhiteSpace 0x6E"
  by (simp_all add: isWhiteSpace_def)

lemma cleaned_fence_around:
  assumes ws1: "\<forall>c\<in>set before. isWhiteSpace c" and ws2: "\<forall>c\<in>set after. isWhiteSpace c"
  shows "cleaned (fence_around before after t) = cleaned t"
proof -
  let ?J = "str ''```json''" and ?B = "str ''```''"
  have J: "?J \<noteq> []" and B: "?B \<noteq> []" and lastJ: "last ?J = 0x6E"
    by (simp_all add: fence_characters)
  have setJ: "set ?J = {0x60, 0x6A, 0x73, 0x6F, 0x6E}" and setB: "set ?B = {0x60}"
    by (auto simp: fence_characters)
  have foreign: "set w \<inter> set ?J = {}" "set w \<inter> set ?B = {}" "0x6E \<notin> set w"
    if "\<forall>c\<in>set w. isWhiteSpace c" for w
    using that fence_not_whitespace unfolding setJ setB by auto
  let ?u = "replaceAll ?J t"
  have "replaceAll ?J (fence_around before after t) = replaceAll ?J (before @ t @ after @ ?B)"
    unfolding fence_around_def by (rule replaceAll_match[OF J])
  also have "\<dots> = before @ replaceAll ?J (t @ after @ ?B)"
    by (rule replaceAll_foreign_prefix) (rule foreign(1)[OF ws1])
  also have "replaceAll ?J (t @ after @ ?B) = ?u @ after @ ?B"
    by (rule replaceAll_tail_without_last) (use foreign(3)[OF ws2] in \<open>simp add: lastJ setB\<close>)
  finally have first: "replaceAll ?J (fence_around before after t) = before @ ?u @ after @ ?B" .
  have BB: "replaceAll ?B ?B = []"
    using replaceAll_match[OF B, of "[]"] by simp
  have second: "replaceAll ?B (?u @ after @ ?B) = replaceAll ?B ?u @ after"
  proof (cases after)
    case Nil
    then show ?thesis
      using replaceAll_run[of 3 "0x60" ?u] by (simp add: fence_characters)
  next
    case (Cons c w)
    with ws2 have c: "c \<notin> set ?B" and w: "set w \<inter> set ?B = {}"
      using foreign(2)[of "c # w"] by auto
    have "replaceAll ?B (?u @ c # (w @ ?B)) = replaceAll ?B ?u @ c # replaceAll ?B (w @ ?B)"
      by (rule replaceAll_foreign_char[OF c])
    also have "replaceAll ?B (w @ ?B) = w @ replaceAll ?B ?B"
      by (rule replaceAll_foreign_prefix[OF w])
    finally show ?thesis
      using Cons BB by simp
  qed
  have "replaceAll ?B (before @ ?u @ after @ ?B) = before @ replaceAll ?B (?u @ after @ ?B)"
    by (rule replaceAll_foreign_prefix) (rule foreign(2)[OF ws1])
  with second have "replaceAll ?B (before @ ?u @ after @ ?B) = before @ replaceAll ?B ?u @ after"
    by simp
  with first show ?thesis
    unfolding cleaned_def by (simp add: trim_whitespace_around[OF ws1 ws2])
qed

subsection \<open>The clean-up of the merge answer\<close>

text \<open>
  Claim C8. For every answer text \<open>t\<close>, cleaning \<open>t\<close> wrapped in \<^verbatim>\<open>```json\<close> and
  \<^verbatim>\<open>```\<close> gives the text that cleaning \<open>t\<close> itself gives, so both parse to the same
  value or fail alike; this holds with a line break, with nothing and with any white space
  between the fence and \<open>t\<close>.
\<close>

theorem fenced_parses_identically:
  "cleaned (fenced t) = cleaned t
   \<and> JSON_parse env (cleaned (fenced t)) = JSON_parse env (cleaned t)
   \<and> cleaned (str ''```json'' @ t @ str ''```'') = cleaned t
   \<and> ((\<forall>c\<in>set before \<union> set after. isWhiteSpace c) \<longrightarrow>
        cleaned (fence_around before after t) = cleaned t
      \<and> JSON_parse env (cleaned (fence_around before after t)) = JSON_parse env (cleaned t))"
proof -
  have nl: "\<forall>c\<in>set [0xA]. isWhiteSpace c"
    by (simp add: isWhiteSpace_def)
  have "fenced t = fence_around [0xA] [0xA] t"
    by (simp add: fenced_def fence_around_def)
  with cleaned_fence_around[OF nl nl, of t] have newline: "cleaned (fenced t) = cleaned t"
    by simp
  have "str ''```json'' @ t @ str ''```'' = fence_around [] [] t"
    by (simp add: fence_around_def)
  with cleaned_fence_around[of "[]" "[]" t] have bare: "cleaned (str ''```json'' @ t @ str ''```'') = cleaned t"
    by simp
  have "cleaned (fence_around before after t) = cleaned t"
    if "\<forall>c\<in>set before \<union> set after. isWhiteSpace c"
    using that by (intro cleaned_fence_around) simp_all
  with newline bare show ?thesis
    by simp
qed

lemma cleaned_braces: "cleaned (str ''{}'') = str ''{}''"
  by (simp add: cleaned_def trim_def replaceAll.simps isWhiteSpace_def str_def)

theorem fenced_parses_identically_witness:
  "cleaned (fenced (str ''{}'')) = str ''{}''
   \<and> cleaned (str ''```json'' @ str ''{}'' @ str ''```'') = str ''{}''
   \<and> cleaned (fence_around [0x20] [0x9, 0xA] (str ''{}'')) = str ''{}''
   \<and> JSON_parse (demo_app_env None []) (cleaned (fenced (str ''{}''))) = Inr (str ''{}'')"
proof -
  have ws: "\<forall>c\<in>set [0x20] \<union> set [0x9, 0xA]. isWhiteSpace c"
    by (simp add: isWhiteSpace_def)
  have parse: "JSON_parse (demo_app_env None []) (str ''{}'') = Inr (str ''{}'')"
    by (simp add: demo_app_env_def)
  from fenced_parses_identically[of "str ''{}''" "demo_app_env None []" "[0x20]" "[0x9, 0xA]"] ws
  show ?thesis
    unfolding cleaned_braces parse by blast
qed

subsection \<open>The fan-out\<close>

lemma Promise_all_resolved: "Promise_all order (map Inr xs) = Inr xs"
proof -
  have none: "find (\<lambda>k. k < length (map Inr xs) \<and> isl (map Inr xs ! k)) (order @ [0..<length (map Inr xs)]) = None"
    by (simp add: find_None_iff)
  have "map projr (map Inr xs) = xs"
    by (simp add: comp_def)
  then show ?thesis
    unfolding Promise_all_def none by simp
qed

lemma Promise_all_rejected:
  assumes "k < length outcomes" "isl (outcomes ! k)"
  shows "\<exists>j e. j < length outcomes \<and> outcomes ! j = Inl e \<and> Promise_all order outcomes = Inl e"
proof -
  let ?P = "\<lambda>k. k < length outcomes \<and> isl (outcomes ! k)"
  from assms have "\<exists>x\<in>set (order @ [0..<length outcomes]). ?P x"
    by auto
  then obtain j where j: "find ?P (order @ [0..<length outcomes]) = Some j"
    by (cases "find ?P (order @ [0..<length outcomes])") (auto simp: find_None_iff)
  then have "?P j"
    by (auto simp: find_Some_iff)
  then obtain e where "j < length outcomes" "outcomes ! j = Inl e"
    by (cases "outcomes ! j") auto
  with j show ?thesis
    by (auto simp: Promise_all_def)
qed

lemma Promise_all_Inl:
  assumes "Promise_all order outcomes = Inl e"
  shows "\<exists>j<length outcomes. outcomes ! j = Inl e"
proof -
  let ?P = "\<lambda>k. k < length outcomes \<and> isl (outcomes ! k)"
  from assms obtain j where j: "find ?P (order @ [0..<length outcomes]) = Some j"
    and e: "e = projl (outcomes ! j)"
    by (auto simp: Promise_all_def split: option.splits)
  from j have "?P j"
    by (auto simp: find_Some_iff)
  with e show ?thesis
    by (cases "outcomes ! j") auto
qed

lemma outcomes_nth:
  assumes "k < length files"
  shows "map (\<lambda>(k, file). map_sum id first_text (analyze env k (snd file))) (enumerate 0 files) ! k
       = map_sum id first_text (analyze env k (snd (files ! k)))"
  using assms by (simp add: nth_enumerate_eq)

lemma outcomes_resolved:
  assumes "length responses = length files"
    and "\<forall>k<length files. analyze env k (snd (files ! k)) = Inr (responses ! k)"
  shows "map (\<lambda>(k, file). map_sum id first_text (analyze env k (snd file))) (enumerate 0 files)
       = map Inr (map first_text responses)"
  using assms by (intro nth_equalityI) (simp_all add: nth_enumerate_eq)

lemma merge_calls_append: "merge_calls (xs @ ys) = merge_calls xs @ merge_calls ys"
  by (induction xs rule: merge_calls.induct) simp_all

lemma written_files_append: "written_files (xs @ ys) = written_files xs @ written_files ys"
  by (induction xs rule: written_files.induct) simp_all

lemma write_calls_append: "write_calls (xs @ ys) = write_calls xs @ write_calls ys"
  by (induction xs rule: write_calls.induct) simp_all

lemma started_quiet:
  "merge_calls (map (\<lambda>(k, file). Analyze k (snd file)) xs) = []"
  "written_files (map (\<lambda>(k, file). Analyze k (snd file)) xs) = []"
  "write_calls (map (\<lambda>(k, file). Analyze k (snd file)) xs) = []"
  by (induction xs) auto

lemma consolidate_merge_calls: "merge_calls (fst (consolidate env msg)) = []"
  by (simp add: consolidate_def Let_def split: sum.splits option.splits)

text \<open>The run when every analysis request resolves.\<close>

lemma processFilesOf_resolved:
  assumes "length responses = length files"
    and "\<forall>k<length files. analyze env k (snd (files ! k)) = Inr (responses ! k)"
  shows "processFilesOf files env =
     map (\<lambda>(k, file). Analyze k (snd file)) (enumerate 0 files)
     @ Merge (join [0xA] (map first_text responses))
     # (case merge env (join [0xA] (map first_text responses)) of
          Inl err \<Rightarrow> [LogError uploading_failed err]
        | Inr msg \<Rightarrow>
            fst (consolidate env msg)
            @ (case snd (consolidate env msg) of
                 Some err \<Rightarrow> [LogError uploading_failed err]
               | None \<Rightarrow> []))"
  unfolding processFilesOf_def Let_def outcomes_resolved[OF assms] Promise_all_resolved
  by (simp split: sum.splits prod.splits option.splits)

text \<open>The run when an analysis request rejects.\<close>

lemma processFilesOf_rejected:
  assumes "k < length files" "analyze env k (snd (files ! k)) = Inl e0"
  shows "\<exists>j e. j < length files \<and> analyze env j (snd (files ! j)) = Inl e
     \<and> processFilesOf files env
         = map (\<lambda>(k, file). Analyze k (snd file)) (enumerate 0 files) @ [LogError uploading_failed e]"
proof -
  let ?outcomes = "map (\<lambda>(k, file). map_sum id first_text (analyze env k (snd file))) (enumerate 0 files)"
  have len: "length ?outcomes = length files"
    by simp
  from assms have "isl (?outcomes ! k)"
    unfolding outcomes_nth[OF assms(1)] by simp
  with Promise_all_rejected[of k ?outcomes "settle_order env"] assms(1) len
  obtain j e where j: "j < length files" "?outcomes ! j = Inl e"
    "Promise_all (settle_order env) ?outcomes = Inl e"
    by auto
  from j(2) have "analyze env j (snd (files ! j)) = Inl e"
    unfolding outcomes_nth[OF j(1)] by (cases "analyze env j (snd (files ! j))") simp_all
  moreover from j(3) have "processFilesOf files env
      = map (\<lambda>(k, file). Analyze k (snd file)) (enumerate 0 files) @ [LogError uploading_failed e]"
    by (simp add: processFilesOf_def Let_def)
  ultimately show ?thesis
    using j(1) by blast
qed

lemma demo_resolved:
  "length demo_responses = length results"
  "\<forall>k<length results. analyze (demo_app_env None answer) k (snd (results ! k)) = Inr (demo_responses ! k)"
proof -
  show "length demo_responses = length results"
    by (simp add: demo_responses_def results_def)
  show "\<forall>k<length results. analyze (demo_app_env None answer) k (snd (results ! k))
      = Inr (demo_responses ! k)"
  proof (intro allI impI)
    fix k
    assume "k < length results"
    then have "k < 4"
      by (simp add: results_def)
    then have "k = 0 \<or> k = 1 \<or> k = 2 \<or> k = 3"
      by arith
    then show "analyze (demo_app_env None answer) k (snd (results ! k)) = Inr (demo_responses ! k)"
      by (elim disjE) (simp_all add: demo_responses_def demo_app_env_def)
  qed
qed

lemma demo_payloads: "join [0xA] (map first_text demo_responses) = [0xA, 0xA, 0xA] @ str ''[]''"
  by (simp add: demo_responses_def first_text_def demo_message_def)

subsection \<open>A rejected analysis request\<close>

lemma find_first_split:
  assumes "find P xs = Some x"
  shows "\<exists>pre post. xs = pre @ x # post \<and> P x \<and> (\<forall>y\<in>set pre. \<not> P y)"
proof -
  from assms obtain i where i: "i < length xs" "P (xs ! i)" "x = xs ! i" "\<forall>j<i. \<not> P (xs ! j)"
    by (auto simp: find_Some_iff)
  have "xs = take i xs @ x # drop (Suc i) xs"
    using i(1,3) by (simp add: id_take_nth_drop)
  moreover have "\<not> P y" if "y \<in> set (take i xs)" for y
  proof -
    from that obtain m where "m < length (take i xs)" "y = take i xs ! m"
      by (auto simp: in_set_conv_nth)
    with i(4) show ?thesis
      by simp
  qed
  ultimately show ?thesis
    using i(2,3) by blast
qed

lemma find_split_Some:
  "(\<forall>y\<in>set pre. \<not> P y) \<Longrightarrow> P x \<Longrightarrow> find P (pre @ x # post) = Some x"
  by (induction pre) simp_all

text \<open>
  Claim C6, amended. When one of the analysis requests rejects, \<^verbatim>\<open>processFiles\<close> logs
  \<^verbatim>\<open>Error uploading one or more files:\<close> with the reason of the request that rejected first
  in time (every request that settled before it resolved) and does nothing else after
  starting the requests: no payloads are returned, no merge request is made,
  \<^verbatim>\<open>fs.writeFileSync\<close> is not called and no file is written.
\<close>

theorem rejected_analysis_aborts:
  assumes "k < length files" "analyze env k (snd (files ! k)) = Inl e0"
  shows "\<exists>pre j post e.
      settle_order env @ [0..<length files] = pre @ j # post
    \<and> (\<forall>i\<in>set pre. i < length files \<longrightarrow> \<not> isl (analyze env i (snd (files ! i))))
    \<and> j < length files \<and> analyze env j (snd (files ! j)) = Inl e
    \<and> (k \<in> set (settle_order env) \<longrightarrow> (\<exists>rest. settle_order env = pre @ j # rest))
    \<and> processFilesOf files env
        = map (\<lambda>(k, file). Analyze k (snd file)) (enumerate 0 files)
          @ [LogError uploading_failed e]
    \<and> merge_calls (processFilesOf files env) = []
    \<and> write_calls (processFilesOf files env) = []
    \<and> written_files (processFilesOf files env) = []"
proof -
  let ?outcomes = "map (\<lambda>(k, file). map_sum id first_text (analyze env k (snd file))) (enumerate 0 files)"
  let ?order = "settle_order env"
  define P where "P i \<longleftrightarrow> i < length ?outcomes \<and> isl (?outcomes ! i)" for i
  have len: "length ?outcomes = length files"
    by simp
  have rejected: "P i \<longleftrightarrow> i < length files \<and> isl (analyze env i (snd (files ! i)))" for i
  proof (cases "i < length files")
    case True
    then show ?thesis
      unfolding P_def len outcomes_nth[OF True] by (cases "analyze env i (snd (files ! i))") simp_all
  next
    case False
    then show ?thesis by (simp add: P_def)
  qed
  from assms have Pk: "P k"
    unfolding rejected by simp
  have "\<exists>pre j post. ?order @ [0..<length files] = pre @ j # post \<and> P j
      \<and> (\<forall>i\<in>set pre. \<not> P i)
      \<and> (k \<in> set ?order \<longrightarrow> (\<exists>rest. ?order = pre @ j # rest))"
  proof (cases "k \<in> set ?order")
    case True
    with Pk obtain j where "find P ?order = Some j"
      by (cases "find P ?order") (auto simp: find_None_iff)
    from find_first_split[OF this] obtain pre rest where
      split: "?order = pre @ j # rest" "P j" "\<forall>i\<in>set pre. \<not> P i"
      by blast
    show ?thesis
      by (rule exI[of _ pre], rule exI[of _ j], rule exI[of _ "rest @ [0..<length files]"])
        (use split in simp)
  next
    case False
    from Pk assms(1) have "\<exists>i\<in>set (?order @ [0..<length files]). P i"
      by (intro bexI[of _ k]) simp_all
    then obtain j where "find P (?order @ [0..<length files]) = Some j"
      by (cases "find P (?order @ [0..<length files])") (auto simp: find_None_iff)
    from find_first_split[OF this] False show ?thesis
      by blast
  qed
  then obtain pre j post where split: "?order @ [0..<length files] = pre @ j # post"
    and Pj: "P j" and before: "\<forall>i\<in>set pre. \<not> P i"
    and listed: "k \<in> set ?order \<longrightarrow> (\<exists>rest. ?order = pre @ j # rest)"
    by blast
  from Pj have j: "j < length files" "isl (analyze env j (snd (files ! j)))"
    by (simp_all add: rejected)
  then obtain e where e: "analyze env j (snd (files ! j)) = Inl e"
    by (cases "analyze env j (snd (files ! j))") simp_all
  with j(1) have out: "?outcomes ! j = Inl e"
    unfolding outcomes_nth[OF j(1)] by simp
  have "find P (?order @ [0..<length ?outcomes]) = Some j"
    unfolding len split by (rule find_split_Some[OF before Pj])
  then have "find (\<lambda>i. i < length ?outcomes \<and> isl (?outcomes ! i)) (?order @ [0..<length ?outcomes])
      = Some j"
    unfolding P_def .
  then have "Promise_all ?order ?outcomes = Inl (projl (?outcomes ! j))"
    unfolding Promise_all_def by simp
  with out have "Promise_all ?order ?outcomes = Inl e"
    by simp
  then have run: "processFilesOf files env
      = map (\<lambda>(k, file). Analyze k (snd file)) (enumerate 0 files) @ [LogError uploading_failed e]"
    by (simp add: processFilesOf_def Let_def)
  have quiet: "merge_calls (processFilesOf files env) = []"
    "write_calls (processFilesOf files env) = []"
    "written_files (processFilesOf files env) = []"
    unfolding run
    by (simp_all add: merge_calls_append write_calls_append written_files_append started_quiet)
  from before have "\<forall>i\<in>set pre. i < length files \<longrightarrow> \<not> isl (analyze env i (snd (files ! i)))"
    by (simp add: rejected)
  with split j(1) e listed run quiet show ?thesis
    by blast
qed

lemma demo_racing_run:
  "processFiles demo_racing_env =
     [Analyze 0 (str ''file_011CUCchhG7PkDfiyvS1CspP''),
      Analyze 1 (str ''file_011CUCchZJeAzfiWdnZrNQKr''),
      Analyze 2 (str ''file_011CUCchXcgkj9RXa956vDst''),
      Analyze 3 (str ''file_011CUCchWirpGeA1FCSMYDE9''),
      LogError uploading_failed (JsError (str ''third file'') (str ''settled first''))]"
  by (simp add: processFiles_def processFilesOf_def results_def demo_racing_env_def
      demo_app_env_def Promise_all_def Let_def)

theorem rejected_analysis_aborts_witness:
  "processFiles demo_racing_env =
     [Analyze 0 (str ''file_011CUCchhG7PkDfiyvS1CspP''),
      Analyze 1 (str ''file_011CUCchZJeAzfiWdnZrNQKr''),
      Analyze 2 (str ''file_011CUCchXcgkj9RXa956vDst''),
      Analyze 3 (str ''file_011CUCchWirpGeA1FCSMYDE9''),
      LogError uploading_failed (JsError (str ''third file'') (str ''settled first''))]
   \<and> settle_order demo_racing_env = [3] @ 2 # [1, 0]
   \<and> analyze demo_racing_env 3 (snd (results ! 3)) = Inr (demo_message (str ''[]''))
   \<and> analyze demo_racing_env 2 (snd (results ! 2))
       = Inl (JsError (str ''third file'') (str ''settled first''))
   \<and> analyze demo_racing_env 1 (snd (results ! 1))
       = Inl (JsError (str ''second file'') (str ''settled last''))
   \<and> merge_calls (processFiles demo_racing_env) = []
   \<and> write_calls (processFiles demo_racing_env) = []
   \<and> written_files (processFiles demo_racing_env) = []"
proof -
  have k: "1 < length results"
    by (simp add: results_def)
  have rej: "analyze demo_racing_env 1 (snd (results ! 1))
      = Inl (JsError (str ''second file'') (str ''settled last''))"
    by (simp add: demo_racing_env_def)
  from rejected_analysis_aborts[OF k rej]
  have "merge_calls (processFiles demo_racing_env) = []"
    "write_calls (processFiles demo_racing_env) = []"
    "written_files (processFiles demo_racing_env) = []"
    unfolding processFiles_def by auto
  moreover have "settle_order demo_racing_env = [3] @ 2 # [1, 0]"
    "analyze demo_racing_env 3 (snd (results ! 3)) = Inr (demo_message (str ''[]''))"
    "analyze demo_racing_env 2 (snd (results ! 2))
       = Inl (JsError (str ''third file'') (str ''settled first''))"
    by (simp_all add: demo_racing_env_def)
  ultimately show ?thesis
    using demo_racing_run rej by simp
qed

text \<open>
  Claim C6 as stated fails: the run in which the request for the first identifier rejects and
  the run in which the request for the second one rejects, with the same reason, have the
  same effects, so the report does not identify the identifier that failed.
\<close>

theorem rejected_analysis_counterexample:
  "processFiles (demo_app_env (Some 0) []) =
     [Analyze 0 (str ''file_011CUCchhG7PkDfiyvS1CspP''),
      Analyze 1 (str ''file_011CUCchZJeAzfiWdnZrNQKr''),
      Analyze 2 (str ''file_011CUCchXcgkj9RXa956vDst''),
      Analyze 3 (str ''file_011CUCchWirpGeA1FCSMYDE9''),
      LogError uploading_failed demo_error]
   \<and> processFiles (demo_app_env (Some 1) []) = processFiles (demo_app_env (Some 0) [])
   \<and> analyze (demo_app_env (Some 0) []) 0 (str ''file_011CUCchhG7PkDfiyvS1CspP'') = Inl demo_error
   \<and> analyze (demo_app_env (Some 0) []) 1 (str ''file_011CUCchZJeAzfiWdnZrNQKr'')
       = Inr \<lparr>content = Some []\<rparr>
   \<and> analyze (demo_app_env (Some 1) []) 0 (str ''file_011CUCchhG7PkDfiyvS1CspP'')
       = Inr \<lparr>content = None\<rparr>
   \<and> analyze (demo_app_env (Some 1) []) 1 (str ''file_011CUCchZJeAzfiWdnZrNQKr'') = Inl demo_error"
  by (simp add: processFiles_def processFilesOf_def results_def demo_app_env_def Promise_all_def Let_def)

subsection \<open>The merge request\<close>

lemma join_separators: "join sep (p # ps) = p @ concat (map (\<lambda>q. sep @ q) ps)"
  by (induction ps arbitrary: p) simp_all

lemma merge_calls_resolved:
  assumes "length responses = length files"
    and "\<forall>k<length files. analyze env k (snd (files ! k)) = Inr (responses ! k)"
  shows "merge_calls (processFilesOf files env) = [join [0xA] (map first_text responses)]"
  unfolding processFilesOf_resolved[OF assms]
  by (simp add: merge_calls_append started_quiet consolidate_merge_calls split: sum.splits option.splits)

text \<open>
  Claim C7. When the analysis requests have resolved, whatever their payloads are, the run
  makes exactly one merge request, and its user text is the payloads in order with one line
  break between neighbours.
\<close>

theorem one_merge_call:
  assumes "length responses = length files"
    and "\<forall>k<length files. analyze env k (snd (files ! k)) = Inr (responses ! k)"
  shows "merge_calls (processFilesOf files env) = [join [0xA] (map first_text responses)]
    \<and> join [0xA] (map first_text responses)
        = (case map first_text responses of
             [] \<Rightarrow> []
           | p # ps \<Rightarrow> p @ concat (map (\<lambda>q. 0xA # q) ps))
    \<and> join [0xA] [p1, p2] = p1 @ [0xA] @ p2"
  using merge_calls_resolved[OF assms]
  by (simp add: join_separators split: list.splits)

theorem one_merge_call_witness:
  "merge_calls (processFiles (demo_app_env None (str ''{}''))) = [[0xA, 0xA, 0xA] @ str ''[]'']
   \<and> join [0xA] (map first_text demo_responses) = [0xA, 0xA, 0xA] @ str ''[]''"
  using one_merge_call[OF demo_resolved(1) demo_resolved(2)[of "str ''{}''"]]
  unfolding processFiles_def demo_payloads by simp

subsection \<open>Empty payloads\<close>

text \<open>
  Claim C10. An analysis request that resolves with no content, with no content block or
  with a first block that has no text yields the empty payload; when all requests resolve
  the fan-out fulfils with the payloads and the merge request follows. The fan-out rejects
  only with the reason of a request that rejected.
\<close>

theorem empty_payload_is_no_failure:
  "(length responses = length files
      \<and> (\<forall>k<length files. analyze env k (snd (files ! k)) = Inr (responses ! k)) \<longrightarrow>
        Promise_all (settle_order env)
          (map (\<lambda>(k, file). map_sum id first_text (analyze env k (snd file))) (enumerate 0 files))
        = Inr (map first_text responses)
      \<and> processFilesOf files env ! length files = Merge (join [0xA] (map first_text responses))
      \<and> (\<forall>k<length files.
            content (responses ! k) = None \<or> content (responses ! k) = Some []
            \<or> (\<exists>block blocks. content (responses ! k) = Some (block # blocks)
                  \<and> block_text block = None)
            \<longrightarrow> map first_text responses ! k = []))
   \<and> (\<forall>e. Promise_all (settle_order env)
          (map (\<lambda>(k, file). map_sum id first_text (analyze env k (snd file))) (enumerate 0 files))
        = Inl e \<longrightarrow> (\<exists>k<length files. analyze env k (snd (files ! k)) = Inl e))"
proof (intro conjI impI allI)
  fix e
  let ?outcomes = "map (\<lambda>(k, file). map_sum id first_text (analyze env k (snd file))) (enumerate 0 files)"
  assume "Promise_all (settle_order env) ?outcomes = Inl e"
  from Promise_all_Inl[OF this] obtain j where j: "j < length files" "?outcomes ! j = Inl e"
    by auto
  from j(2) have "analyze env j (snd (files ! j)) = Inl e"
    unfolding outcomes_nth[OF j(1)] by (cases "analyze env j (snd (files ! j))") simp_all
  with j(1) show "\<exists>k<length files. analyze env k (snd (files ! k)) = Inl e"
    by blast
next
  assume a: "length responses = length files
      \<and> (\<forall>k<length files. analyze env k (snd (files ! k)) = Inr (responses ! k))"
  then have len: "length responses = length files"
    and res: "\<forall>k<length files. analyze env k (snd (files ! k)) = Inr (responses ! k)"
    by simp_all
  show "Promise_all (settle_order env)
          (map (\<lambda>(k, file). map_sum id first_text (analyze env k (snd file))) (enumerate 0 files))
        = Inr (map first_text responses)"
    unfolding outcomes_resolved[OF len res] by (rule Promise_all_resolved)
  have "(map (\<lambda>(k, file). Analyze k (snd file)) (enumerate 0 files) @ ev # evs) ! length files = ev"
    for ev evs
    using nth_append_length[of "map (\<lambda>(k, file). Analyze k (snd file)) (enumerate 0 files)" ev evs]
    by simp
  then show "processFilesOf files env ! length files = Merge (join [0xA] (map first_text responses))"
    unfolding processFilesOf_resolved[OF len res] .
  fix k
  assume "k < length files"
    and "content (responses ! k) = None \<or> content (responses ! k) = Some []
            \<or> (\<exists>block blocks. content (responses ! k) = Some (block # blocks)
                  \<and> block_text block = None)"
  with len show "map first_text responses ! k = []"
    by (auto simp: first_text_def)
qed

theorem empty_payload_is_no_failure_witness:
  "Promise_all (settle_order (demo_app_env None (str ''{}'')))
      (map (\<lambda>(k, file). map_sum id first_text (analyze (demo_app_env None (str ''{}'')) k (snd file)))
         (enumerate 0 results))
     = Inr [[], [], [], str ''[]'']
   \<and> processFiles (demo_app_env None (str ''{}'')) ! 4 = Merge ([0xA, 0xA, 0xA] @ str ''[]'')"
proof -
  have payloads: "map first_text demo_responses = [[], [], [], str ''[]'']"
    by (simp add: demo_responses_def first_text_def demo_message_def)
  have len: "length results = 4"
    by (simp add: results_def)
  have hyp: "length demo_responses = length results
      \<and> (\<forall>k<length results. analyze (demo_app_env None (str ''{}'')) k (snd (results ! k))
            = Inr (demo_responses ! k))"
    using demo_resolved(1) demo_resolved(2)[of "str ''{}''"] by (rule conjI)
  note c = empty_payload_is_no_failure[where responses = demo_responses and files = results
      and env = "demo_app_env None (str ''{}'')", THEN conjunct1, rule_format, OF hyp]
  have joined: "join [0xA] [[], [], [], str ''[]''] = [0xA, 0xA, 0xA] @ str ''[]''"
    by simp
  from c[THEN conjunct1] c[THEN conjunct2, THEN conjunct1]
  show ?thesis
    unfolding processFiles_def payloads joined len by (rule conjI)
qed

subsection \<open>The outcome of the consolidation\<close>








end
